theory Spec2Isabelle
  imports Complex_Main "HOL-Library.Log_Nat"
begin

section \<open>Data model\<close>

text \<open>
  The development follows the C++ header of the library (\<^verbatim>\<open>graph\<close>, \<^verbatim>\<open>graph_edge\<close>,
  \<^verbatim>\<open>graph_node\<close>, \<^verbatim>\<open>dijkstra_iteration_step\<close>, \<^verbatim>\<open>dijkstra_traversal_iterator\<close>,
  \<^verbatim>\<open>dijkstra_traversal\<close>) and, where the Kotlin sibling (\<^verbatim>\<open>Graph.kt\<close>) behaves
  differently, that file as well.

  Modelling decisions.
  \<^item> A node object is referred to by its name: the graph creates exactly one node per
    name, so a \<^verbatim>\<open>shared_ptr\<close>/\<^verbatim>\<open>weak_ptr\<close> to a node and the node's key denote the
    same thing. Dereferencing a node pointer is a lookup in the graph's node table.
  \<^item> \<^verbatim>\<open>std::unordered_map\<close> and \<^verbatim>\<open>std::unordered_set\<close> are association lists and
    lists: the order of the list is the order in which a range-for visits the
    container. That order is unspecified in C++, so every theorem about a traversal is
    stated for all orders.
  \<^item> A \<^verbatim>\<open>double\<close> is an IEEE 754 binary64 number: a weight can be any of them, NaN
    and the infinities included, and the sum of a distance and a weight is rounded to
    the nearest double and overflows to infinity (section \<open>Doubles\<close>).
  \<^item> A function that can throw returns the exception (or \<open>Inr ()\<close>) together with the
    graph as it is at that moment.
\<close>

text \<open>
  The four failures of the library. In C++ they are
  \<^verbatim>\<open>std::domain_error("Node already exists")\<close> (\<open>DuplicateKey\<close>),
  \<^verbatim>\<open>std::domain_error("Node does not exist")\<close> and
  \<^verbatim>\<open>std::logic_error("Unable to find the node")\<close> (\<open>UnknownNode\<close>),
  \<^verbatim>\<open>std::domain_error("Weights must be positive")\<close> (\<open>InvalidWeight\<close>) and
  \<^verbatim>\<open>std::domain_error("Edge asready exists")\<close> (\<open>DuplicateEdge\<close>).
\<close>

datatype error = DuplicateKey | UnknownNode | InvalidWeight | DuplicateEdge

section \<open>Doubles\<close>

text \<open>
  Weights and distances are \<^verbatim>\<open>double\<close> in C++ and \<^verbatim>\<open>Double\<close> in Kotlin: IEEE 754
  binary64 numbers. The program compares them (\<^verbatim>\<open><\<close>, \<^verbatim>\<open><=\<close>, \<^verbatim>\<open>==\<close>) and adds a
  weight to a distance, in the default rounding mode (to nearest, ties to even), which
  it never changes. The two zeros of the format compare equal and add alike, so they
  are one value here.

  \<open>distance_value\<close> is a double other than NaN: minus infinity, a finite value, or plus
  infinity, which is what \<^verbatim>\<open>HUGE_VAL\<close> and Kotlin's \<^verbatim>\<open>Double.POSITIVE_INFINITY\<close> are.
  These are linearly ordered, and the order is the one \<^verbatim>\<open><\<close> and \<^verbatim>\<open><=\<close> compute. A
  finite double is the real number it denotes. Not every real number is a double: \<open>a\<close>
  is one when \<open>round_double a = Finite a\<close>, with the rounding defined below. Where a
  property depends on a number being a double, that is stated of it (\<open>good_distance\<close>,
  lemma \<open>round_double_idem\<close>).
\<close>

datatype distance_value = NegInf | Finite real | HUGE_VAL

instantiation distance_value :: linorder
begin

fun less_eq_distance_value :: "distance_value \<Rightarrow> distance_value \<Rightarrow> bool" where
  "less_eq_distance_value NegInf y = True"
| "less_eq_distance_value (Finite a) NegInf = False"
| "less_eq_distance_value (Finite a) (Finite b) = (a \<le> b)"
| "less_eq_distance_value (Finite a) HUGE_VAL = True"
| "less_eq_distance_value HUGE_VAL NegInf = False"
| "less_eq_distance_value HUGE_VAL (Finite b) = False"
| "less_eq_distance_value HUGE_VAL HUGE_VAL = True"

fun less_distance_value :: "distance_value \<Rightarrow> distance_value \<Rightarrow> bool" where
  "less_distance_value x NegInf = False"
| "less_distance_value NegInf (Finite b) = True"
| "less_distance_value NegInf HUGE_VAL = True"
| "less_distance_value (Finite a) (Finite b) = (a < b)"
| "less_distance_value (Finite a) HUGE_VAL = True"
| "less_distance_value HUGE_VAL (Finite b) = False"
| "less_distance_value HUGE_VAL HUGE_VAL = False"

instance
proof
  fix x y z :: distance_value
  show "(x < y) = (x \<le> y \<and> \<not> y \<le> x)"
    by (cases x; cases y) auto
  show "x \<le> x"
    by (cases x) auto
  show "x \<le> y \<Longrightarrow> y \<le> z \<Longrightarrow> x \<le> z"
    by (cases x; cases y; cases z) auto
  show "x \<le> y \<Longrightarrow> y \<le> x \<Longrightarrow> x = y"
    by (cases x; cases y) auto
  show "x \<le> y \<or> y \<le> x"
    by (cases x; cases y) auto
qed

end

text \<open>
  A \<^verbatim>\<open>double\<close>: NaN or one of the above. \<^verbatim>\<open><\<close> and \<^verbatim>\<open><=\<close> are false as soon as one
  side is NaN, so \<open>\<not> w \<le> 0\<close> holds of a NaN \<open>w\<close> as well as of a positive one.
\<close>

datatype double = NaN | Num distance_value

instantiation double :: "{zero, ord}"
begin

definition zero_double :: double where
  "zero_double = Num (Finite 0)"

fun less_eq_double :: "double \<Rightarrow> double \<Rightarrow> bool" where
  "less_eq_double (Num a) (Num b) = (a \<le> b)"
| "less_eq_double x y = False"

fun less_double :: "double \<Rightarrow> double \<Rightarrow> bool" where
  "less_double (Num a) (Num b) = (a < b)"
| "less_double x y = False"

instance ..

end

text \<open>
  Rounding a real number to an integer, to the nearest one and to the even one of the
  two when it lies halfway between them.
\<close>

definition round_to_even :: "real \<Rightarrow> int" where
  "round_to_even x =
     (let n = \<lfloor>x\<rfloor>; r = x - of_int n
      in if r < 1 / 2 \<or> (r = 1 / 2 \<and> even n) then n else n + 1)"

text \<open>
  Rounding a real number to a double. The finite doubles are the numbers
  \<open>m * 2 ^ e\<close> with \<open>\<bar>m\<bar> < 2 ^ 53\<close> and \<open>- 1074 \<le> e \<le> 971\<close>. In units of the smallest of
  them, \<open>2 ^ - 1074\<close>, the number \<open>x\<close> is \<open>X\<close>; a number of \<open>b\<close> bits before the binary
  point lies between doubles that are \<open>2 ^ (b - 53)\<close> units apart (one unit when
  \<open>b \<le> 53\<close>, the subnormal numbers and the first binade of the normal ones), and is
  rounded to the nearest of them, to the one with the even mantissa in a tie. A result
  of magnitude \<open>2 ^ 1024\<close> (\<open>2 ^ 2098\<close> units) or more is the infinity of that sign.
\<close>

definition round_double :: "real \<Rightarrow> distance_value" where
  "round_double x =
     (let X = x * 2 ^ 1074;
          q = nat (bitlen \<lfloor>\<bar>X\<bar>\<rfloor> - 53);
          y = of_int (round_to_even (X / 2 ^ q)) * 2 ^ q
      in if 2 ^ 2098 \<le> y then HUGE_VAL
         else if y \<le> - (2 ^ 2098) then NegInf
         else Finite (y / 2 ^ 1074))"

text \<open>
  \<^verbatim>\<open>current_node->distance + itr->weight\<close>: NaN when the weight is NaN or the two are
  infinities of opposite sign, the infinity when one of them is infinite, and the
  rounded sum of two finite numbers, which overflows to an infinity.
\<close>

fun plus_weight :: "distance_value \<Rightarrow> double \<Rightarrow> double" where
  "plus_weight d NaN = NaN"
| "plus_weight (Finite a) (Num (Finite w)) = Num (round_double (a + w))"
| "plus_weight (Finite a) (Num HUGE_VAL) = Num HUGE_VAL"
| "plus_weight (Finite a) (Num NegInf) = Num NegInf"
| "plus_weight HUGE_VAL (Num NegInf) = NaN"
| "plus_weight HUGE_VAL (Num w) = Num HUGE_VAL"
| "plus_weight NegInf (Num HUGE_VAL) = NaN"
| "plus_weight NegInf (Num w) = Num NegInf"

section \<open>Graphs\<close>

text \<open>\<^verbatim>\<open>class graph_edge\<close>: the field \<^verbatim>\<open>end\<close> is called \<open>end_node\<close> here.\<close>

record 'a graph_edge =
  weight :: double
  start :: 'a
  end_node :: 'a

record 'a graph_node =
  name :: 'a
  out_edges :: "'a graph_edge list"
  in_edges :: "'a graph_edge list"

record 'a graph =
  nodes :: "('a \<times> 'a graph_node) list"

text \<open>\<^verbatim>\<open>nodes.contains(k)\<close>.\<close>

definition contains :: "'a graph \<Rightarrow> 'a \<Rightarrow> bool" where
  "contains g k = (map_of (nodes g) k \<noteq> None)"

text \<open>Reading the edge collections of the node a pointer refers to.\<close>

definition out_edges_of :: "'a graph \<Rightarrow> 'a \<Rightarrow> 'a graph_edge list" where
  "out_edges_of g k = (case map_of (nodes g) k of None \<Rightarrow> [] | Some n \<Rightarrow> out_edges n)"

definition in_edges_of :: "'a graph \<Rightarrow> 'a \<Rightarrow> 'a graph_edge list" where
  "in_edges_of g k = (case map_of (nodes g) k of None \<Rightarrow> [] | Some n \<Rightarrow> in_edges n)"

section \<open>Building a graph\<close>

text \<open>
  \<^verbatim>\<open>graph::create_node\<close>. The new entry is put at the end of the table; where an
  unordered map really puts it is unspecified.
\<close>

definition create_node :: "'a graph \<Rightarrow> 'a \<Rightarrow> (error + unit) \<times> 'a graph" where
  "create_node g nm =
     (if contains g nm then (Inl DuplicateKey, g)
      else (Inr (), g\<lparr>nodes := nodes g @ [(nm, \<lparr>name = nm, out_edges = [], in_edges = []\<rparr>)]\<rparr>))"

text \<open>
  The constructor \<^verbatim>\<open>graph_edge::graph_edge(startIn, endIn, weightIn)\<close>: the weight is
  tested first, then the outgoing edges of the start node are searched for one that
  already ends at \<^verbatim>\<open>endIn\<close>.
\<close>

definition graph_edge :: "'a graph \<Rightarrow> 'a \<Rightarrow> 'a \<Rightarrow> double \<Rightarrow> error + 'a graph_edge" where
  "graph_edge g startIn endIn weightIn =
     (if weightIn \<le> 0 then Inl InvalidWeight
      else if \<exists>itr \<in> set (out_edges_of g startIn). end_node itr = endIn then Inl DuplicateEdge
      else Inr \<lparr>weight = weightIn, start = startIn, end_node = endIn\<rparr>)"

text \<open>\<^verbatim>\<open>nodes[k]->out_edges.insert(edge)\<close> and \<^verbatim>\<open>nodes[k]->in_edges.insert(edge)\<close>.\<close>

definition insert_out_edge :: "'a \<Rightarrow> 'a graph_edge \<Rightarrow> ('a \<times> 'a graph_node) list \<Rightarrow> ('a \<times> 'a graph_node) list" where
  "insert_out_edge k edge ns =
     map (\<lambda>(k', n). if k' = k then (k', n\<lparr>out_edges := edge # out_edges n\<rparr>) else (k', n)) ns"

definition insert_in_edge :: "'a \<Rightarrow> 'a graph_edge \<Rightarrow> ('a \<times> 'a graph_node) list \<Rightarrow> ('a \<times> 'a graph_node) list" where
  "insert_in_edge k edge ns =
     map (\<lambda>(k', n). if k' = k then (k', n\<lparr>in_edges := edge # in_edges n\<rparr>) else (k', n)) ns"

text \<open>
  \<^verbatim>\<open>graph::create_link\<close>. \<^verbatim>\<open>nodes[start]\<close> and \<^verbatim>\<open>nodes[end]\<close> are evaluated only
  after both keys have been found, so they read the table and never insert into it.
\<close>

definition create_link :: "'a graph \<Rightarrow> 'a \<Rightarrow> 'a \<Rightarrow> double \<Rightarrow> (error + unit) \<times> 'a graph" where
  "create_link g s e w =
     (if \<not> contains g s \<or> \<not> contains g e then (Inl UnknownNode, g)
      else (case graph_edge g s e w of
              Inl err \<Rightarrow> (Inl err, g)
            | Inr edge \<Rightarrow>
                (Inr (), g\<lparr>nodes := insert_in_edge e edge (insert_out_edge s edge (nodes g))\<rparr>)))"

text \<open>
  Kotlin's \<^verbatim>\<open>Graph.insertEdge\<close>: the same three tests, but the search for an existing
  edge comes before the constructor of \<^verbatim>\<open>GraphEdge\<close> tests the weight.
\<close>

definition insertEdge :: "'a graph \<Rightarrow> 'a \<Rightarrow> 'a \<Rightarrow> double \<Rightarrow> (error + unit) \<times> 'a graph" where
  "insertEdge g s e w =
     (if \<not> contains g s \<or> \<not> contains g e then (Inl UnknownNode, g)
      else if \<exists>other \<in> set (out_edges_of g s). end_node other = e then (Inl DuplicateEdge, g)
      else if w \<le> 0 then (Inl InvalidWeight, g)
      else (let edge = \<lparr>weight = w, start = s, end_node = e\<rparr>
            in (Inr (), g\<lparr>nodes := insert_in_edge e edge (insert_out_edge s edge (nodes g))\<rparr>)))"

section \<open>The shortest-path traversal\<close>

text \<open>
  \<^verbatim>\<open>struct dijkstra_iteration_step\<close>; \<^verbatim>\<open>previous == nullptr\<close> is \<open>None\<close>. The field
  \<^verbatim>\<open>distance\<close> is never NaN: it is initialised to \<^verbatim>\<open>HUGE_VAL\<close>, the constructor of the
  iterator writes 0 to it, and \<^verbatim>\<open>iter()\<close> writes to it a sum that has just compared
  less than a distance, which NaN does not.
\<close>

record 'a dijkstra_iteration_step =
  current :: 'a
  distance :: distance_value
  previous :: "'a option"

text \<open>
  \<^verbatim>\<open>struct dijkstra_traversal_iterator\<close>. The step objects are shared between the
  working set, \<^verbatim>\<open>current_node\<close> and whoever received a step from \<^verbatim>\<open>operator*\<close>, and
  the relaxation writes through the pointers held by the working set. So the objects
  live in a store, \<open>steps\<close>, and a \<^verbatim>\<open>shared_ptr<dijkstra_iteration_step>\<close> is an
  index into it; \<^verbatim>\<open>nullptr\<close> is \<open>None\<close>. A non-null pointer of the program always
  refers to an object; the lemmas on \<open>linked\<close> below show that the indices of the
  model are always within the store.
\<close>

record 'a dijkstra_traversal_iterator =
  steps :: "'a dijkstra_iteration_step list"
  working_set :: "('a \<times> nat) list"
  current_node :: "nat option"
  working_graph :: "'a graph"

text \<open>\<^verbatim>\<open>working_set[k] = element\<close>: assignment to the key, inserting it when it is new.\<close>

definition assign :: "'a \<Rightarrow> nat \<Rightarrow> ('a \<times> nat) list \<Rightarrow> ('a \<times> nat) list" where
  "assign k p ws =
     (if k \<in> fst ` set ws then map (\<lambda>(k', p'). if k' = k then (k', p) else (k', p')) ws
      else ws @ [(k, p)])"

text \<open>
  The loop of the constructor over \<^verbatim>\<open>working_graph->nodes\<close>: one new step object per
  node, at distance \<^verbatim>\<open>HUGE_VAL\<close> unless the node is the start. The working set gets
  the order of the node table here; the theorems hold for every order of the table,
  hence for whatever order the working set of the program has.
\<close>

fun fill_working_set ::
  "('a \<times> 'a graph_node) list \<Rightarrow> 'a \<Rightarrow> 'a dijkstra_traversal_iterator \<Rightarrow> 'a dijkstra_traversal_iterator" where
  "fill_working_set [] s it = it"
| "fill_working_set (itr # rest) s it =
     (let element = \<lparr>current = fst itr,
                     distance = (if fst itr = s then Finite 0 else HUGE_VAL),
                     previous = None\<rparr>;
          p = length (steps it)
      in fill_working_set rest s
           (it\<lparr>steps := steps it @ [element], working_set := assign (fst itr) p (working_set it)\<rparr>))"

text \<open>
  One round of the selection loop of \<^verbatim>\<open>iter()\<close>: the first entry is taken when nothing
  is selected yet, and a later entry replaces the selection only when it is strictly
  closer.
\<close>

definition scan_entry ::
  "'a dijkstra_iteration_step list \<Rightarrow> nat option \<Rightarrow> ('a \<times> nat) \<Rightarrow> nat option" where
  "scan_entry st cur itr =
     (let c = (case cur of None \<Rightarrow> snd itr | Some c' \<Rightarrow> c')
      in if distance (st ! snd itr) < distance (st ! c) then Some (snd itr) else Some c)"

text \<open>
  The same round in Kotlin's \<^verbatim>\<open>shortestPath\<close>, whose working set is a map from nodes
  to mutable \<^verbatim>\<open>PathEntry\<close> objects (here again pointers into a store):
  \<^verbatim>\<open>nextEntry = if (entry.distance <= (nextEntry?.distance ?: Double.POSITIVE_INFINITY)) entry else nextEntry\<close>.
\<close>

definition scan_entry_kt ::
  "'a dijkstra_iteration_step list \<Rightarrow> nat option \<Rightarrow> ('a \<times> nat) \<Rightarrow> nat option" where
  "scan_entry_kt st nextEntry entry =
     (if distance (st ! snd entry)
           \<le> (case nextEntry of None \<Rightarrow> HUGE_VAL | Some n \<Rightarrow> distance (st ! n))
      then Some (snd entry) else nextEntry)"

text \<open>\<^verbatim>\<open>working_set.erase(key)\<close>.\<close>

definition erase :: "'a \<Rightarrow> ('a \<times> nat) list \<Rightarrow> ('a \<times> nat) list" where
  "erase k ws = filter (\<lambda>itr. fst itr \<noteq> k) ws"

text \<open>
  One round of the relaxation loop of \<^verbatim>\<open>iter()\<close>, for the outgoing edge \<open>itr\<close> of the
  selected step \<open>c\<close>. The debugging aid \<^verbatim>\<open>assert(end)\<close> is not a branch of the model:
  the iterator keeps the graph alive and every edge ends at a node of its graph (lemma
  \<open>assert_end_holds\<close>), so the weak pointer never expires; compiled with
  \<^verbatim>\<open>NDEBUG\<close>, a null \<^verbatim>\<open>end\<close> would not be found in the working set, which is what
  the lookup below does with a name that is not in it. The comparison
  \<^verbatim>\<open>distance < working_set[end]->distance\<close> is false when the sum is NaN.
\<close>

definition relax_edge ::
  "nat \<Rightarrow> 'a dijkstra_traversal_iterator \<Rightarrow> 'a graph_edge \<Rightarrow> 'a dijkstra_traversal_iterator" where
  "relax_edge c it itr =
     (case map_of (working_set it) (end_node itr) of
        None \<Rightarrow> it
      | Some q \<Rightarrow>
          (case plus_weight (distance (steps it ! c)) (weight itr) of
             NaN \<Rightarrow> it
           | Num d \<Rightarrow>
               if d < distance (steps it ! q)
               then it\<lparr>steps := (steps it)[q := (steps it ! q)\<lparr>distance := d,
                                      previous := Some (current (steps it ! c))\<rparr>]\<rparr>
               else it))"

text \<open>
  \<^verbatim>\<open>dijkstra_traversal_iterator::iter()\<close>. The selection loop leaves \<^verbatim>\<open>current_node\<close>
  non-null whenever the working set is not empty, so the branch \<open>None\<close> after the
  loop is never taken.
\<close>

definition iter :: "'a dijkstra_traversal_iterator \<Rightarrow> 'a dijkstra_traversal_iterator" where
  "iter it =
     (if length (working_set it) = 0 then it\<lparr>current_node := None\<rparr>
      else (case foldl (scan_entry (steps it)) None (working_set it) of
              None \<Rightarrow> it\<lparr>current_node := None\<rparr>
            | Some c \<Rightarrow>
                (let it1 = it\<lparr>current_node := Some c,
                              working_set := erase (current (steps it ! c)) (working_set it)\<rparr>
                 in if distance (steps it1 ! c) = HUGE_VAL then it1\<lparr>current_node := None\<rparr>
                    else foldl (relax_edge c) it1
                           (out_edges_of (working_graph it1) (current (steps it1 ! c))))))"

text \<open>
  The constructor of the iterator: \<^verbatim>\<open>end()\<close> passes \<^verbatim>\<open>is_beginning = false\<close> and gets
  an empty iterator, \<^verbatim>\<open>begin()\<close> passes \<^verbatim>\<open>true\<close>.
\<close>

definition dijkstra_traversal_iterator ::
  "'a graph \<Rightarrow> 'a \<Rightarrow> bool \<Rightarrow> error + 'a dijkstra_traversal_iterator" where
  "dijkstra_traversal_iterator graph_ptr s is_beginning =
     (let it = \<lparr>steps = [], working_set = [], current_node = None, working_graph = graph_ptr\<rparr>
      in if is_beginning
         then (if \<not> contains graph_ptr s then Inl UnknownNode
               else Inr (iter (fill_working_set (nodes graph_ptr) s it)))
         else Inr it)"

text \<open>
  \<^verbatim>\<open>class dijkstra_traversal\<close>, the shell that hands out the iterators. Its fields
  \<^verbatim>\<open>working_graph\<close> and \<^verbatim>\<open>start\<close> are \<open>traversal_graph\<close> and \<open>traversal_start\<close> here.
  Its constructor stores its arguments and contains no \<^verbatim>\<open>throw\<close>: it always returns
  the object.
\<close>

record 'a dijkstra_traversal =
  traversal_graph :: "'a graph"
  traversal_start :: 'a

definition dijkstra_traversal :: "'a graph \<Rightarrow> 'a \<Rightarrow> error + 'a dijkstra_traversal" where
  "dijkstra_traversal g s = Inr \<lparr>traversal_graph = g, traversal_start = s\<rparr>"

definition traversal_begin :: "'a dijkstra_traversal \<Rightarrow> error + 'a dijkstra_traversal_iterator" where
  "traversal_begin t = dijkstra_traversal_iterator (traversal_graph t) (traversal_start t) True"

definition traversal_end :: "'a dijkstra_traversal \<Rightarrow> error + 'a dijkstra_traversal_iterator" where
  "traversal_end t = dijkstra_traversal_iterator (traversal_graph t) (traversal_start t) False"

text \<open>
  The loop \<^verbatim>\<open>for (auto step : traversal) { ... }\<close> once \<^verbatim>\<open>begin()\<close> has returned \<open>it\<close>:
  while \<^verbatim>\<open>operator!=\<close> holds (\<^verbatim>\<open>current_node != nullptr\<close>) the body receives
  \<^verbatim>\<open>*it\<close> and then \<^verbatim>\<open>++it\<close> calls \<^verbatim>\<open>iter()\<close>. The result is the list of the steps
  as the body reads them; \<open>None\<close> stands for a loop that does not end.
\<close>

partial_function (option) range_for ::
  "'a dijkstra_traversal_iterator \<Rightarrow> 'a dijkstra_iteration_step list option" where
  "range_for it =
     (case current_node it of
        None \<Rightarrow> Some []
      | Some p \<Rightarrow> Option.bind (range_for (iter it)) (\<lambda>rest. Some ((steps it ! p) # rest)))"

declare range_for.simps [code]


text \<open>
  The whole statement \<^verbatim>\<open>for (auto step : dijkstra_traversal<T>(g, s)) { ... }\<close>: the
  shell is constructed, \<^verbatim>\<open>begin()\<close> constructs the iterator, and the loop runs.
\<close>

definition traverse :: "'a graph \<Rightarrow> 'a \<Rightarrow> error + 'a dijkstra_iteration_step list option" where
  "traverse g s =
     (case dijkstra_traversal g s of
        Inl err \<Rightarrow> Inl err
      | Inr t \<Rightarrow>
          (case traversal_begin t of
             Inl err \<Rightarrow> Inl err
           | Inr it \<Rightarrow> Inr (range_for it)))"

section \<open>Notions used to state the properties\<close>

text \<open>
  The doubles around \<open>X\<close> units are \<open>2 ^ spacing X\<close> units apart.
\<close>

definition spacing :: "real \<Rightarrow> nat" where
  "spacing X = nat (bitlen \<lfloor>\<bar>X\<bar>\<rfloor> - 53)"

text \<open>
  Rounding a number of units to a whole number of steps of that size.
\<close>

definition round_scaled :: "real \<Rightarrow> real" where
  "round_scaled X = of_int (round_to_even (X / 2 ^ spacing X)) * 2 ^ spacing X"

text \<open>
  A distance the traversal can have stored: plus infinity, or a finite double that is
  not negative.
\<close>

definition good_distance :: "distance_value \<Rightarrow> bool" where
  "good_distance d =
     (case d of NegInf \<Rightarrow> False | Finite a \<Rightarrow> 0 \<le> a \<and> round_double a = Finite a | HUGE_VAL \<Rightarrow> True)"

text \<open>
  A double that is a number: neither NaN nor an infinity.
\<close>

fun is_finite :: "double \<Rightarrow> bool" where
  "is_finite (Num (Finite r)) = True"
| "is_finite x = False"

text \<open>
  What a successful \<^verbatim>\<open>create_link(s, e, w)\<close> changes: the table keeps its keys, the
  new edge is added once to the outgoing collection of \<open>s\<close> and once to the incoming
  collection of \<open>e\<close>, and every other collection is as before.
\<close>

definition link_added :: "'a graph \<Rightarrow> 'a \<Rightarrow> 'a \<Rightarrow> double \<Rightarrow> 'a graph \<Rightarrow> bool" where
  "link_added g s e w g' =
     (let edge = \<lparr>weight = w, start = s, end_node = e\<rparr>
      in map fst (nodes g') = map fst (nodes g) \<and>
         (\<forall>k. out_edges_of g' k = (if k = s then edge # out_edges_of g s else out_edges_of g k)) \<and>
         (\<forall>k. in_edges_of g' k = (if k = e then edge # in_edges_of g e else in_edges_of g k)))"

text \<open>
  The names of the nodes, in the order of the table.
\<close>

definition keys :: "'a graph \<Rightarrow> 'a list" where
  "keys g = map fst (nodes g)"

text \<open>
  \<open>c\<close> is the first entry of minimum distance in the scan order of the working set
  \<open>ws\<close>: every entry before it is strictly farther, no entry after it is closer.
\<close>

definition first_min :: "'a dijkstra_iteration_step list \<Rightarrow> ('a \<times> nat) list \<Rightarrow> nat \<Rightarrow> bool" where
  "first_min st ws c =
     (\<exists>pre k post. ws = pre @ (k, c) # post \<and>
        (\<forall>itr \<in> set pre. distance (st ! c) < distance (st ! snd itr)) \<and>
        (\<forall>itr \<in> set post. distance (st ! c) \<le> distance (st ! snd itr)))"

text \<open>
  The structure the constructor sets up and \<^verbatim>\<open>iter()\<close> keeps: one step object per
  node of the graph, every entry of the working set maps a node to the step object of
  that node, and \<^verbatim>\<open>current_node\<close> points to a step that has left the working set.
\<close>

definition linked :: "'a graph \<Rightarrow> 'a dijkstra_traversal_iterator \<Rightarrow> bool" where
  "linked g it =
     (working_graph it = g \<and> map current (steps it) = keys g \<and> distinct (keys g) \<and>
      distinct (map fst (working_set it)) \<and>
      (\<forall>itr \<in> set (working_set it). snd itr < length (steps it) \<and> current (steps it ! snd itr) = fst itr) \<and>
      (\<forall>c. current_node it = Some c \<longrightarrow> c < length (steps it) \<and> c \<notin> snd ` set (working_set it)))"

text \<open>
  A step object that is no longer in the working set.
\<close>

definition finished :: "'a dijkstra_traversal_iterator \<Rightarrow> nat \<Rightarrow> bool" where
  "finished it p = (p < length (steps it) \<and> p \<notin> snd ` set (working_set it))"

text \<open>
  What \<^verbatim>\<open>create_node\<close> and \<^verbatim>\<open>create_link\<close> guarantee of every graph they build (lemma
  \<open>built_wf\<close>), whatever the order of its node table (lemma \<open>wf_graph_reorder\<close>): names
  are unique, every edge ends at a node of the graph, and every weight has passed the
  test of the constructor of \<^verbatim>\<open>graph_edge\<close>: \<^verbatim>\<open>weight <= 0\<close> is false of it. Such a weight is
  positive, possibly infinite, or NaN.
\<close>

definition wf_graph :: "'a graph \<Rightarrow> bool" where
  "wf_graph g =
     (distinct (keys g) \<and>
      (\<forall>k \<in> set (keys g). \<forall>e \<in> set (out_edges_of g k). end_node e \<in> set (keys g) \<and> \<not> weight e \<le> 0))"

text \<open>
  \<open>v\<close> can be reached from \<open>s\<close> along outgoing edges (in zero or more steps).
\<close>

definition reachable :: "'a graph \<Rightarrow> 'a \<Rightarrow> 'a \<Rightarrow> bool" where
  "reachable g s v = ((s, v) \<in> {(u, u'). \<exists>e \<in> set (out_edges_of g u). end_node e = u'}\<^sup>*)"

text \<open>
  The parts of the invariant of the traversal. First: the step that \<^verbatim>\<open>current_node\<close>
  points to has a finite distance, and nothing in the working set is closer.
\<close>

definition closest :: "'a dijkstra_traversal_iterator \<Rightarrow> bool" where
  "closest it =
     (\<forall>c. current_node it = Some c \<longrightarrow>
        distance (steps it ! c) \<noteq> HUGE_VAL \<and>
        (\<forall>itr \<in> set (working_set it). distance (steps it ! c) \<le> distance (steps it ! snd itr)))"

text \<open>
  A step without predecessor is still at \<^verbatim>\<open>HUGE_VAL\<close>, or it is the source at distance
  0; a step with predecessor \<open>k\<close> got its distance from a finished step of \<open>k\<close> along an
  edge of the graph.
\<close>

definition pred_ok :: "'a graph \<Rightarrow> 'a \<Rightarrow> 'a dijkstra_traversal_iterator \<Rightarrow> nat \<Rightarrow> bool" where
  "pred_ok g s it p =
     (case previous (steps it ! p) of
        None \<Rightarrow> distance (steps it ! p) = HUGE_VAL \<or>
                (current (steps it ! p) = s \<and> distance (steps it ! p) = Finite 0)
      | Some k \<Rightarrow>
          (\<exists>q. finished it q \<and> q \<noteq> p \<and> current (steps it ! q) = k \<and>
               distance (steps it ! q) \<noteq> HUGE_VAL \<and>
               (\<exists>e \<in> set (out_edges_of g k). end_node e = current (steps it ! p) \<and>
                  Num (distance (steps it ! p)) = plus_weight (distance (steps it ! q)) (weight e))))"

text \<open>
  Every edge that leaves a finished node of finite distance leads to a node of finite
  distance, provided the sum of that distance and the weight of the edge is finite.
\<close>

definition relaxed :: "'a graph \<Rightarrow> 'a dijkstra_traversal_iterator \<Rightarrow> bool" where
  "relaxed g it =
     (\<forall>p. finished it p \<longrightarrow> distance (steps it ! p) \<noteq> HUGE_VAL \<longrightarrow>
        (\<forall>e \<in> set (out_edges_of g (current (steps it ! p))).
           is_finite (plus_weight (distance (steps it ! p)) (weight e)) \<longrightarrow>
           (\<exists>q < length (steps it). current (steps it ! q) = end_node e \<and>
              distance (steps it ! q) \<noteq> HUGE_VAL)))"

text \<open>
  Only nodes that can be reached from the source have a finite distance.
\<close>

definition sound :: "'a graph \<Rightarrow> 'a \<Rightarrow> 'a dijkstra_traversal_iterator \<Rightarrow> bool" where
  "sound g s it =
     (\<forall>p < length (steps it). distance (steps it ! p) \<noteq> HUGE_VAL \<longrightarrow>
        reachable g s (current (steps it ! p)))"

text \<open>
  The source has a finite distance.
\<close>

definition source_found :: "'a \<Rightarrow> 'a dijkstra_traversal_iterator \<Rightarrow> bool" where
  "source_found s it =
     (\<exists>p < length (steps it). current (steps it ! p) = s \<and> distance (steps it ! p) \<noteq> HUGE_VAL)"

text \<open>
  Once a step at \<^verbatim>\<open>HUGE_VAL\<close> has been removed from the working set, everything left
  in the working set is at \<^verbatim>\<open>HUGE_VAL\<close>.
\<close>

definition terminal_ok :: "'a dijkstra_traversal_iterator \<Rightarrow> bool" where
  "terminal_ok it =
     (\<forall>p. finished it p \<longrightarrow> distance (steps it ! p) = HUGE_VAL \<longrightarrow>
        (\<forall>itr \<in> set (working_set it). distance (steps it ! snd itr) = HUGE_VAL))"

text \<open>
  Every distance is plus infinity or a finite double that is not negative.
\<close>

definition distances_ok :: "'a dijkstra_traversal_iterator \<Rightarrow> bool" where
  "distances_ok it = (\<forall>p < length (steps it). good_distance (distance (steps it ! p)))"

text \<open>
  The invariant of the traversal of \<open>g\<close> from \<open>s\<close>.
\<close>

definition dijkstra_inv :: "'a graph \<Rightarrow> 'a \<Rightarrow> 'a dijkstra_traversal_iterator \<Rightarrow> bool" where
  "dijkstra_inv g s it =
     (linked g it \<and> closest it \<and> (\<forall>p < length (steps it). pred_ok g s it p) \<and>
      relaxed g it \<and> sound g s it \<and> source_found s it \<and> terminal_ok it \<and> distances_ok it)"

text \<open>
  The iterator of \<^verbatim>\<open>begin()\<close> as the constructor has it after its loop and before its
  call of \<^verbatim>\<open>iter()\<close>: the working set is full and no increment has run.
\<close>

definition filled :: "'a graph \<Rightarrow> 'a \<Rightarrow> 'a dijkstra_traversal_iterator" where
  "filled g s =
     fill_working_set (nodes g) s
       \<lparr>steps = [], working_set = [], current_node = None, working_graph = g\<rparr>"

text \<open>
  The nodes whose step has left the working set with a finite distance.
\<close>

definition settled :: "'a dijkstra_traversal_iterator \<Rightarrow> 'a set" where
  "settled it =
     {current (steps it ! p) | p. finished it p \<and> distance (steps it ! p) \<noteq> HUGE_VAL}"

text \<open>
  No sum overflows: for every step of \<open>ys\<close> and every edge that leaves its node, the
  distance of the step plus the weight of the edge is a finite double (neither an
  infinity nor NaN).
\<close>

definition sums_finite :: "'a graph \<Rightarrow> 'a dijkstra_iteration_step list \<Rightarrow> bool" where
  "sums_finite g ys =
     (\<forall>y \<in> set ys. \<forall>e \<in> set (out_edges_of g (current y)).
        is_finite (plus_weight (distance y) (weight e)))"

text \<open>
  The same of the steps that have left the working set with a finite distance.
\<close>

definition sums_ok :: "'a graph \<Rightarrow> 'a dijkstra_traversal_iterator \<Rightarrow> bool" where
  "sums_ok g it =
     (\<forall>p. finished it p \<longrightarrow> distance (steps it ! p) \<noteq> HUGE_VAL \<longrightarrow>
        (\<forall>e \<in> set (out_edges_of g (current (steps it ! p))).
           is_finite (plus_weight (distance (steps it ! p)) (weight e))))"

text \<open>
  Every weight of the graph is a number, at most \<open>2 ^ m\<close>.
\<close>

definition bounded_weights :: "'a graph \<Rightarrow> nat \<Rightarrow> bool" where
  "bounded_weights g m =
     (\<forall>k \<in> set (keys g). \<forall>e \<in> set (out_edges_of g k). weight e \<le> Num (Finite (2 ^ m)))"

text \<open>
  A distance that is not \<^verbatim>\<open>HUGE_VAL\<close> is at most \<open>2 ^ m\<close> times the number of the steps
  that have left the working set.
\<close>

definition bounded :: "nat \<Rightarrow> 'a dijkstra_traversal_iterator \<Rightarrow> bool" where
  "bounded m it =
     (\<forall>p < length (steps it).
        distance (steps it ! p) = HUGE_VAL \<or>
        distance (steps it ! p) \<le> Finite (real (card {q. finished it q}) * 2 ^ m))"

text \<open>
  The predecessor of a step of the run \<open>ys\<close> that starts at the iterator \<open>it\<close> is the
  node of an earlier step of the run, or of a step that was finished before \<open>it\<close>; in
  both cases the distance is the predecessor's plus the weight of an edge between them.
\<close>

definition pred_in_run ::
  "'a graph \<Rightarrow> 'a dijkstra_traversal_iterator \<Rightarrow> 'a dijkstra_iteration_step list \<Rightarrow> bool" where
  "pred_in_run g it ys =
     (\<forall>i < length ys. \<forall>k. previous (ys ! i) = Some k \<longrightarrow>
        (\<exists>e \<in> set (out_edges_of g k). end_node e = current (ys ! i) \<and>
           ((\<exists>j < i. current (ys ! j) = k \<and>
                Num (distance (ys ! i)) = plus_weight (distance (ys ! j)) (weight e)) \<or>
            (\<exists>q. finished it q \<and> current_node it \<noteq> Some q \<and> current (steps it ! q) = k \<and>
                Num (distance (ys ! i)) = plus_weight (distance (steps it ! q)) (weight e)))))"

text \<open>
  \<open>c\<close> is the last entry of minimum distance in the scan order of \<open>ws\<close>.
\<close>

definition last_min :: "'a dijkstra_iteration_step list \<Rightarrow> ('a \<times> nat) list \<Rightarrow> nat \<Rightarrow> bool" where
  "last_min st ws c =
     (\<exists>pre k post. ws = pre @ (k, c) # post \<and>
        (\<forall>itr \<in> set pre. distance (st ! c) \<le> distance (st ! snd itr)) \<and>
        (\<forall>itr \<in> set post. distance (st ! c) < distance (st ! snd itr)))"

text \<open>
  The graphs of the library: the empty graph the constructor of \<^verbatim>\<open>graph\<close> makes, and
  what \<^verbatim>\<open>create_node\<close> and \<^verbatim>\<open>create_link\<close> leave behind, whether they succeed or throw.
\<close>

inductive built :: "'a graph \<Rightarrow> bool" where
  empty: "built \<lparr>nodes = []\<rparr>"
| node: "built g \<Longrightarrow> built (snd (create_node g nm))"
| link: "built g \<Longrightarrow> built (snd (create_link g s e w))"

section \<open>Example graphs\<close>

text \<open>Two nodes \<open>1\<close> and \<open>2\<close> and the edge from \<open>1\<close> to \<open>2\<close> of weight \<open>5\<close>.\<close>

definition two_nodes :: "nat graph" where
  "two_nodes = snd (create_link (snd (create_node (snd (create_node \<lparr>nodes = []\<rparr> 1)) 2)) 1 2 (Num (Finite 5)))"

text \<open>
  Five nodes; edges \<open>0 \<rightarrow> 2\<close> (1), \<open>0 \<rightarrow> 1\<close> (4), \<open>2 \<rightarrow> 1\<close> (2), \<open>1 \<rightarrow> 3\<close> (5) and
  \<open>4 \<rightarrow> 0\<close> (1). Node \<open>4\<close> cannot be reached from \<open>0\<close>.
\<close>

definition demo :: "nat graph" where
  "demo = \<lparr>nodes =
     [(3, \<lparr>name = 3, out_edges = [], in_edges = [\<lparr>weight = Num (Finite 5), start = 1, end_node = 3\<rparr>]\<rparr>),
      (0, \<lparr>name = 0,
           out_edges = [\<lparr>weight = Num (Finite 1), start = 0, end_node = 2\<rparr>, \<lparr>weight = Num (Finite 4), start = 0, end_node = 1\<rparr>],
           in_edges = [\<lparr>weight = Num (Finite 1), start = 4, end_node = 0\<rparr>]\<rparr>),
      (4, \<lparr>name = 4, out_edges = [\<lparr>weight = Num (Finite 1), start = 4, end_node = 0\<rparr>], in_edges = []\<rparr>),
      (1, \<lparr>name = 1, out_edges = [\<lparr>weight = Num (Finite 5), start = 1, end_node = 3\<rparr>],
           in_edges = [\<lparr>weight = Num (Finite 2), start = 2, end_node = 1\<rparr>, \<lparr>weight = Num (Finite 4), start = 0, end_node = 1\<rparr>]\<rparr>),
      (2, \<lparr>name = 2, out_edges = [\<lparr>weight = Num (Finite 2), start = 2, end_node = 1\<rparr>],
           in_edges = [\<lparr>weight = Num (Finite 1), start = 0, end_node = 2\<rparr>]\<rparr>)]\<rparr>"

text \<open>
  The steps of the traversal of \<open>demo\<close> from \<open>0\<close>.
\<close>

definition demo_steps :: "nat dijkstra_iteration_step list" where
  "demo_steps =
     [\<lparr>current = 0, distance = Finite 0, previous = None\<rparr>,
      \<lparr>current = 2, distance = Finite 1, previous = Some 0\<rparr>,
      \<lparr>current = 1, distance = Finite 3, previous = Some 2\<rparr>,
      \<lparr>current = 3, distance = Finite 8, previous = Some 1\<rparr>]"

text \<open>
  Three nodes; \<open>1\<close> and \<open>2\<close> are both at distance 1 from \<open>0\<close>.
\<close>

definition tie_graph :: "nat graph" where
  "tie_graph = \<lparr>nodes =
     [(0, \<lparr>name = 0,
           out_edges = [\<lparr>weight = Num (Finite 1), start = 0, end_node = 2\<rparr>, \<lparr>weight = Num (Finite 1), start = 0, end_node = 1\<rparr>],
           in_edges = []\<rparr>),
      (1, \<lparr>name = 1, out_edges = [], in_edges = [\<lparr>weight = Num (Finite 1), start = 0, end_node = 1\<rparr>]\<rparr>),
      (2, \<lparr>name = 2, out_edges = [], in_edges = [\<lparr>weight = Num (Finite 1), start = 0, end_node = 2\<rparr>]\<rparr>)]\<rparr>"

text \<open>
  \<open>2 ^ 1023\<close>, the largest power of two among the doubles (\<^verbatim>\<open>0x1p1023\<close> in C++, about
  \<open>8.99e307\<close>).
\<close>

definition huge_weight :: real where
  "huge_weight = 2 ^ 1023"

text \<open>
  Three nodes in a row, \<open>0 \<rightarrow> 1 \<rightarrow> 2\<close>, both edges of weight \<open>2 ^ 1023\<close>.
\<close>

definition overflow_graph :: "nat graph" where
  "overflow_graph = \<lparr>nodes =
     [(0, \<lparr>name = 0, out_edges = [\<lparr>weight = Num (Finite huge_weight), start = 0, end_node = 1\<rparr>],
           in_edges = []\<rparr>),
      (1, \<lparr>name = 1, out_edges = [\<lparr>weight = Num (Finite huge_weight), start = 1, end_node = 2\<rparr>],
           in_edges = [\<lparr>weight = Num (Finite huge_weight), start = 0, end_node = 1\<rparr>]\<rparr>),
      (2, \<lparr>name = 2, out_edges = [],
           in_edges = [\<lparr>weight = Num (Finite huge_weight), start = 1, end_node = 2\<rparr>]\<rparr>)]\<rparr>"

text \<open>
  Two nodes and one edge \<open>0 \<rightarrow> 1\<close> of weight \<open>w\<close>.
\<close>

definition one_edge :: "double \<Rightarrow> nat graph" where
  "one_edge w = \<lparr>nodes =
     [(0, \<lparr>name = 0, out_edges = [\<lparr>weight = w, start = 0, end_node = 1\<rparr>], in_edges = []\<rparr>),
      (1, \<lparr>name = 1, out_edges = [], in_edges = [\<lparr>weight = w, start = 0, end_node = 1\<rparr>]\<rparr>)]\<rparr>"

text \<open>
  The steps of the traversal of \<open>overflow_graph\<close> from \<open>0\<close>.
\<close>

definition overflow_steps :: "nat dijkstra_iteration_step list" where
  "overflow_steps =
     [\<lparr>current = 0, distance = Finite 0, previous = None\<rparr>,
      \<lparr>current = 1, distance = Finite huge_weight, previous = Some 0\<rparr>]"

section \<open>Doubles: properties\<close>

lemma round_to_even_of_int: "round_to_even (of_int n) = n"
  by (simp add: round_to_even_def)

lemma round_to_even_range: "\<lfloor>x\<rfloor> \<le> round_to_even x \<and> round_to_even x \<le> \<lfloor>x\<rfloor> + 1"
  by (simp add: round_to_even_def Let_def)

lemma round_to_even_mono:
  assumes "x \<le> y"
  shows "round_to_even x \<le> round_to_even y"
proof (cases "\<lfloor>x\<rfloor> = \<lfloor>y\<rfloor>")
  case True
  then show ?thesis using assms by (auto simp: round_to_even_def Let_def)
next
  case False
  then have "\<lfloor>x\<rfloor> + 1 \<le> \<lfloor>y\<rfloor>" using floor_mono[OF assms] by simp
  then show ?thesis
    using round_to_even_range[of x] round_to_even_range[of y] by linarith
qed

lemma round_to_even_le: "x \<le> of_int n \<Longrightarrow> round_to_even x \<le> n"
  using round_to_even_mono[of x "of_int n"] by (simp add: round_to_even_of_int)

lemma round_to_even_ge: "of_int n \<le> x \<Longrightarrow> n \<le> round_to_even x"
  using round_to_even_mono[of "of_int n" x] by (simp add: round_to_even_of_int)

lemma spacing_upper:
  assumes "0 \<le> X"
  shows "X < 2 ^ (53 + spacing X)"
proof -
  have "bitlen \<lfloor>X\<rfloor> \<le> int (53 + spacing X)"
    using assms by (simp add: spacing_def)
  then have "\<lfloor>X\<rfloor> < 2 ^ nat (int (53 + spacing X))"
    using bitlen_le_iff_power[of "\<lfloor>X\<rfloor>" "int (53 + spacing X)"] by blast
  then have "\<lfloor>X\<rfloor> < 2 ^ (53 + spacing X)"
    by (simp only: nat_int)
  then show ?thesis
    by (metis floor_less_iff of_int_numeral of_int_power)
qed

lemma spacing_lower:
  assumes "0 \<le> X" "0 < spacing X"
  shows "2 ^ (52 + spacing X) \<le> X"
proof -
  have "int (53 + spacing X) \<le> bitlen \<lfloor>X\<rfloor>"
    using assms by (simp add: spacing_def)
  then have "2 ^ (nat (int (53 + spacing X)) - 1) \<le> \<lfloor>X\<rfloor>"
    using bitlen_ge_iff_power[of "int (53 + spacing X)" "\<lfloor>X\<rfloor>"] by simp
  then have "2 ^ (52 + spacing X) \<le> \<lfloor>X\<rfloor>"
    by (simp only: nat_int) simp
  then have "of_int (2 ^ (52 + spacing X)) \<le> X"
    using le_floor_iff by blast
  then show ?thesis by simp
qed

lemma spacing_mono:
  assumes "0 \<le> X" "X \<le> Y"
  shows "spacing X \<le> spacing Y"
proof -
  have "\<lfloor>X\<rfloor> \<le> \<lfloor>Y\<rfloor>" using assms by (simp add: floor_mono)
  then have "bitlen \<lfloor>X\<rfloor> \<le> bitlen \<lfloor>Y\<rfloor>"
    by (simp add: bitlen_def floorlog_mono nat_mono)
  then show ?thesis using assms by (simp add: spacing_def nat_mono)
qed

lemma round_scaled_nonneg:
  assumes "0 \<le> X"
  shows "0 \<le> round_scaled X"
proof -
  have "of_int 0 \<le> X / 2 ^ spacing X" using assms by simp
  then have "0 \<le> round_to_even (X / 2 ^ spacing X)" by (rule round_to_even_ge)
  then show ?thesis by (simp add: round_scaled_def)
qed

lemma round_scaled_mantissa:
  assumes "0 \<le> X"
  shows "round_to_even (X / 2 ^ spacing X) \<le> 2 ^ 53"
proof -
  have "X / 2 ^ spacing X < 2 ^ 53"
    using spacing_upper[OF assms] by (simp add: power_add divide_simps)
  then have "X / 2 ^ spacing X \<le> of_int (2 ^ 53)" by simp
  then show ?thesis by (rule round_to_even_le)
qed

lemma round_scaled_mono:
  assumes "0 \<le> X" "X \<le> Y"
  shows "round_scaled X \<le> round_scaled Y"
proof (cases "spacing X = spacing Y")
  case True
  have "X / 2 ^ spacing Y \<le> Y / 2 ^ spacing Y"
    using assms(2) by (simp add: divide_right_mono)
  then have "round_to_even (X / 2 ^ spacing Y) \<le> round_to_even (Y / 2 ^ spacing Y)"
    by (rule round_to_even_mono)
  then show ?thesis by (simp add: round_scaled_def True)
next
  case False
  have Y: "0 \<le> Y" using assms by simp
  have lt: "spacing X < spacing Y"
    using False spacing_mono[OF assms] by simp
  have "of_int (2 ^ 52) \<le> Y / 2 ^ spacing Y"
    using spacing_lower[OF Y] lt by (simp add: power_add divide_simps)
  then have "2 ^ 52 \<le> round_to_even (Y / 2 ^ spacing Y)"
    by (rule round_to_even_ge)
  then have "(2 ^ 52 :: real) \<le> of_int (round_to_even (Y / 2 ^ spacing Y))"
    by (metis of_int_le_iff of_int_numeral of_int_power)
  then have "2 ^ 52 * 2 ^ spacing Y \<le> round_scaled Y"
    by (simp add: round_scaled_def)
  moreover have "(of_int (round_to_even (X / 2 ^ spacing X)) :: real) \<le> 2 ^ 53"
    using round_scaled_mantissa[OF assms(1)]
    by (metis of_int_le_iff of_int_numeral of_int_power)
  then have "round_scaled X \<le> 2 ^ 53 * 2 ^ spacing X"
    by (simp add: round_scaled_def)
  moreover have "(2 :: real) ^ 53 * 2 ^ spacing X \<le> 2 ^ 52 * 2 ^ spacing Y"
  proof -
    have "53 + spacing X \<le> 52 + spacing Y" using lt by simp
    then have "(2 :: real) ^ (53 + spacing X) \<le> 2 ^ (52 + spacing Y)"
      by (intro power_increasing) simp_all
    then show ?thesis by (simp add: power_add)
  qed
  ultimately show ?thesis by linarith
qed

lemma round_scaled_exact:
  assumes "0 \<le> m" "m < 2 ^ 53"
  shows "round_scaled (of_int m * 2 ^ k) = of_int m * 2 ^ k"
proof -
  let ?X = "of_int m * 2 ^ k :: real"
  have fl: "\<lfloor>\<bar>?X\<bar>\<rfloor> = m * 2 ^ k"
  proof -
    have "\<bar>?X\<bar> = of_int (m * 2 ^ k)" using assms(1) by (simp add: abs_mult)
    then show ?thesis by (metis floor_of_int)
  qed
  have q: "spacing ?X \<le> k"
  proof (cases "m = 0")
    case True
    then show ?thesis by (simp add: spacing_def)
  next
    case False
    then have "0 < m" using assms(1) by simp
    then have "bitlen (m * 2 ^ k) = bitlen m + int k" by simp
    moreover have "bitlen m \<le> 53"
      using assms(2) bitlen_le_iff_power[of m 53] by simp
    ultimately show ?thesis unfolding spacing_def fl by simp
  qed
  define q where "q = spacing ?X"
  obtain j where j: "k = q + j"
    using q le_Suc_ex unfolding q_def by blast
  have rs: "round_scaled ?X = of_int (round_to_even (?X / 2 ^ q)) * 2 ^ q"
    by (simp add: round_scaled_def q_def)
  have p: "(2 :: real) ^ k = 2 ^ j * 2 ^ q"
    by (simp add: j power_add)
  have d: "of_int m * (2 ^ j * 2 ^ q) / 2 ^ q = (of_int (m * 2 ^ j) :: real)"
    by simp
  have "round_to_even (of_int m * (2 ^ j * 2 ^ q) / 2 ^ q) = m * 2 ^ j"
    unfolding d by (rule round_to_even_of_int)
  then show ?thesis
    unfolding rs unfolding p by simp
qed

lemma round_scaled_idem:
  assumes "0 \<le> X"
  shows "round_scaled (round_scaled X) = round_scaled X"
proof -
  let ?n = "round_to_even (X / 2 ^ spacing X)"
  have n0: "0 \<le> ?n"
    using assms round_to_even_ge[of 0 "X / 2 ^ spacing X"] by simp
  have n1: "?n \<le> 2 ^ 53" using round_scaled_mantissa[OF assms] .
  show ?thesis
  proof (cases "?n = 2 ^ 53")
    case True
    then have "round_scaled X = of_int 1 * 2 ^ (53 + spacing X)"
      by (simp add: round_scaled_def power_add)
    then show ?thesis
      using round_scaled_exact[of 1 "53 + spacing X"] by simp
  next
    case False
    then have "?n < 2 ^ 53" using n1 by simp
    then show ?thesis
      using round_scaled_exact[OF n0, of "spacing X"] by (simp add: round_scaled_def)
  qed
qed

lemma round_double_nonneg:
  assumes "0 \<le> x"
  shows "round_double x =
           (if 2 ^ 2098 \<le> round_scaled (x * 2 ^ 1074) then HUGE_VAL
            else Finite (round_scaled (x * 2 ^ 1074) / 2 ^ 1074))"
proof -
  have "0 \<le> x * 2 ^ 1074" using assms by simp
  then have "0 \<le> round_scaled (x * 2 ^ 1074)" by (rule round_scaled_nonneg)
  moreover have "(0 :: real) < 2 ^ 2098" by (rule zero_less_power) simp
  ultimately have "\<not> round_scaled (x * 2 ^ 1074) \<le> - (2 ^ 2098)" by linarith
  then show ?thesis
    by (simp only: round_double_def round_scaled_def spacing_def Let_def if_False)
qed

lemma round_double_mono:
  assumes "0 \<le> x" "x \<le> y"
  shows "round_double x \<le> round_double y"
proof -
  have y: "0 \<le> y" using assms by simp
  have "0 \<le> x * 2 ^ 1074" "x * 2 ^ 1074 \<le> y * 2 ^ 1074"
    using assms by simp_all
  then have "round_scaled (x * 2 ^ 1074) \<le> round_scaled (y * 2 ^ 1074)"
    by (rule round_scaled_mono)
  then show ?thesis
    unfolding round_double_nonneg[OF assms(1)] round_double_nonneg[OF y]
    by (auto simp: divide_right_mono)
qed

lemma round_double_idem:
  assumes "0 \<le> x" "round_double x = Finite y"
  shows "0 \<le> y \<and> round_double y = Finite y"
proof -
  let ?R = "round_scaled (x * 2 ^ 1074)"
  have X: "0 \<le> x * 2 ^ 1074" using assms(1) by simp
  have R: "\<not> 2 ^ 2098 \<le> ?R" "y = ?R / 2 ^ 1074"
    using assms(2) unfolding round_double_nonneg[OF assms(1)] by (auto split: if_splits)
  have R0: "0 \<le> ?R" using X by (rule round_scaled_nonneg)
  then have y0: "0 \<le> y" unfolding R(2) by simp
  have "y * 2 ^ 1074 = ?R" unfolding R(2) by simp
  then have "round_scaled (y * 2 ^ 1074) = ?R"
    using round_scaled_idem[OF X] by simp
  then have "round_double y = Finite y"
    unfolding round_double_nonneg[OF y0] using R by simp
  then show ?thesis using y0 by simp
qed

lemma round_double_exact:
  assumes "0 \<le> m" "m < 2 ^ 53" "of_int m * 2 ^ k < (2 :: real) ^ 1024"
  shows "round_double (of_int m * 2 ^ k) = Finite (of_int m * 2 ^ k)"
proof -
  let ?x = "of_int m * 2 ^ k :: real"
  have x0: "0 \<le> ?x" using assms(1) by simp
  have e: "?x * 2 ^ 1074 = of_int m * 2 ^ (k + 1074)"
    by (simp add: power_add)
  have r: "round_scaled (?x * 2 ^ 1074) = ?x * 2 ^ 1074"
    unfolding e using assms(1,2) by (rule round_scaled_exact)
  have "?x * 2 ^ 1074 < 2 ^ 1024 * 2 ^ 1074"
    using assms(3) by (intro mult_strict_right_mono) simp_all
  also have "\<dots> = (2 :: real) ^ 2098" by (simp flip: power_add)
  finally have "\<not> 2 ^ 2098 \<le> ?x * 2 ^ 1074" by simp
  then show ?thesis
    unfolding round_double_nonneg[OF x0] r by simp
qed

lemma round_double_overflow:
  assumes "2 ^ 1024 \<le> x"
  shows "round_double x = HUGE_VAL"
proof -
  have x0: "0 \<le> x"
    using assms zero_le_power[of "2 :: real" 1024] by linarith
  have "(2 :: real) ^ 1024 * 2 ^ 1074 \<le> x * 2 ^ 1074"
    using assms by (intro mult_right_mono) simp_all
  moreover have "(2 :: real) ^ 1024 * 2 ^ 1074 = of_int 1 * 2 ^ 2098"
    by (simp flip: power_add)
  ultimately have le: "of_int 1 * 2 ^ 2098 \<le> x * 2 ^ 1074" by simp
  have "round_scaled (of_int 1 * 2 ^ 2098) \<le> round_scaled (x * 2 ^ 1074)"
    by (rule round_scaled_mono[OF _ le]) simp
  then have "2 ^ 2098 \<le> round_scaled (x * 2 ^ 1074)"
    using round_scaled_exact[of 1 2098] by simp
  then show ?thesis
    unfolding round_double_nonneg[OF x0] by simp
qed

lemma round_double_numeral:
  assumes "numeral n < (2 :: int) ^ 53"
  shows "round_double (numeral n) = Finite (numeral n)"
proof -
  have "real_of_int (numeral n) < real_of_int (2 ^ 53)"
    using assms by (simp only: of_int_less_iff)
  also have "\<dots> = 2 ^ 53" by (simp only: of_int_power of_int_numeral)
  also have "\<dots> \<le> (2 :: real) ^ 1024" by (rule power_increasing) simp_all
  finally have "real_of_int (numeral n) * 2 ^ 0 < 2 ^ 1024"
    by (simp only: power_0 mult_1_right)
  moreover have "(0 :: int) \<le> numeral n" by simp
  ultimately have "round_double (of_int (numeral n) * 2 ^ 0) = Finite (of_int (numeral n) * 2 ^ 0)"
    using assms by (intro round_double_exact)
  then show ?thesis by (simp only: power_0 mult_1_right of_int_numeral)
qed

lemma round_double_0: "round_double 0 = Finite 0"
  using round_double_exact[of 0 0] by simp

lemma round_double_1: "round_double 1 = Finite 1"
  using round_double_exact[of 1 0] by simp

lemma spacing_eq:
  assumes "2 ^ (52 + q) \<le> X" "X < 2 ^ (53 + q)"
  shows "spacing X = q"
proof -
  have X0: "0 \<le> X" using assms(1) zero_le_power[of "2 :: real" "52 + q"] by linarith
  have a: "(2 :: int) ^ (52 + q) \<le> \<lfloor>X\<rfloor>"
    using assms(1) by (metis le_floor_iff of_int_numeral of_int_power)
  have b: "\<lfloor>X\<rfloor> < 2 ^ (53 + q)"
    using assms(2) by (metis floor_less_iff of_int_numeral of_int_power)
  have "bitlen \<lfloor>X\<rfloor> \<le> int (53 + q)"
    using bitlen_le_iff_power[of "\<lfloor>X\<rfloor>" "int (53 + q)"] b by (simp only: nat_int) simp
  moreover have "int (53 + q) \<le> bitlen \<lfloor>X\<rfloor>"
    using bitlen_ge_iff_power[of "int (53 + q)" "\<lfloor>X\<rfloor>"] a by (simp only: nat_int) simp
  ultimately have "bitlen \<lfloor>X\<rfloor> = int (53 + q)" by simp
  then show ?thesis using X0 by (simp add: spacing_def)
qed

lemma round_to_even_half_odd: "odd n \<Longrightarrow> round_to_even (of_int n + 1 / 2) = n + 1"
proof -
  assume o: "odd n"
  have "\<lfloor>of_int n + (1 / 2 :: real)\<rfloor> = n" by linarith
  then show ?thesis using o by (simp add: round_to_even_def)
qed

text \<open>
  Rounding at work: \<open>10 ^ 16 + 3\<close> lies halfway between the doubles \<open>10 ^ 16 + 2\<close> and
  \<open>10 ^ 16 + 4\<close>, which are two apart there, and goes to the one with the even
  mantissa.
\<close>

lemma round_double_tie: "round_double (10 ^ 16 + 3) = Finite (10 ^ 16 + 4)"
proof -
  let ?X = "(10 ^ 16 + 3) * 2 ^ 1074 :: real"
  have lo: "2 ^ (52 + 1075) \<le> ?X"
  proof -
    have "(2 :: real) ^ (52 + 1075) = 2 ^ 53 * 2 ^ 1074" by (simp flip: power_add)
    also have "\<dots> \<le> ?X" by (intro mult_right_mono) simp_all
    finally show ?thesis .
  qed
  have hi: "?X < 2 ^ (53 + 1075)"
  proof -
    have "(10 ^ 16 + 3 :: real) < 2 ^ 54" by simp
    then have "?X < 2 ^ 54 * 2 ^ 1074" by (intro mult_strict_right_mono) simp_all
    also have "\<dots> = (2 :: real) ^ (53 + 1075)" by (simp flip: power_add)
    finally show ?thesis .
  qed
  have q: "spacing ?X = 1075" using spacing_eq[OF lo hi] .
  have "(2 :: real) ^ 1075 = 2 * 2 ^ 1074" by simp
  then have "?X / 2 ^ 1075 = of_int (5 * 10 ^ 15 + 1) + 1 / 2"
    by (simp add: field_simps)
  then have "round_to_even (?X / 2 ^ 1075) = 5 * 10 ^ 15 + 2"
    using round_to_even_half_odd[of "5 * 10 ^ 15 + 1"] by simp
  then have r: "round_scaled ?X = of_int (5 * 10 ^ 15 + 2) * 2 ^ 1075"
    by (simp only: round_scaled_def q)
  have v: "(of_int (5 * 10 ^ 15 + 2) * 2 ^ 1075 :: real) = (10 ^ 16 + 4) * 2 ^ 1074"
    by simp
  have small: "\<not> (2 :: real) ^ 2098 \<le> (10 ^ 16 + 4) * 2 ^ 1074"
  proof -
    have "(10 ^ 16 + 4 :: real) < 2 ^ 1024" 
      using power_strict_increasing[of 54 1024 "2 :: real"] by simp
    then have "(10 ^ 16 + 4) * 2 ^ 1074 < (2 :: real) ^ 1024 * 2 ^ 1074"
      by (intro mult_strict_right_mono) simp_all
    also have "\<dots> = (2 :: real) ^ 2098" by (simp flip: power_add)
    finally show ?thesis by simp
  qed
  have "round_double (10 ^ 16 + 3) =
          (if 2 ^ 2098 \<le> round_scaled ?X then HUGE_VAL else Finite (round_scaled ?X / 2 ^ 1074))"
    by (rule round_double_nonneg) simp
  then show ?thesis
    unfolding r v using small by simp
qed

lemma HUGE_VAL_le: "HUGE_VAL \<le> d \<longleftrightarrow> d = HUGE_VAL"
  by (cases d) auto

lemma le_HUGE_VAL: "d \<le> HUGE_VAL"
  by (cases d) auto

lemma le_finite: "d \<le> d' \<Longrightarrow> d' \<noteq> HUGE_VAL \<Longrightarrow> d \<noteq> HUGE_VAL"
  by (cases d; cases d') auto

lemma le_zero_double:
  "Num (Finite r) \<le> 0 \<longleftrightarrow> r \<le> 0" "Num HUGE_VAL \<le> 0 \<longleftrightarrow> False"
  "Num NegInf \<le> 0 \<longleftrightarrow> True" "NaN \<le> 0 \<longleftrightarrow> False"
  by (simp_all add: zero_double_def)

lemma not_le_zero_double:
  "\<not> w \<le> 0 \<longleftrightarrow> w = NaN \<or> w = Num HUGE_VAL \<or> (\<exists>r. w = Num (Finite r) \<and> 0 < r)"
proof (cases w)
  case NaN
  then show ?thesis by (simp add: zero_double_def)
next
  case (Num d)
  then show ?thesis by (cases d) (auto simp: zero_double_def)
qed

lemma good_distance_simps:
  "good_distance HUGE_VAL" "\<not> good_distance NegInf" "good_distance (Finite 0)"
  "good_distance (Finite a) \<longleftrightarrow> 0 \<le> a \<and> round_double a = Finite a"
  by (simp_all add: good_distance_def round_double_0)

text \<open>
  Adding a weight that \<^verbatim>\<open>create_link\<close> accepts to a stored distance gives NaN or a
  distance that is not smaller, and that can be stored in its turn.
\<close>

lemma plus_weight_ge:
  assumes "\<not> w \<le> 0" "good_distance d" "plus_weight d w = Num d'"
  shows "d \<le> d' \<and> good_distance d'"
proof (cases d)
  case NegInf
  then show ?thesis using assms(2) by (simp add: good_distance_simps)
next
  case HUGE_VAL
  then show ?thesis
    using assms(1,3) unfolding not_le_zero_double by (auto simp: good_distance_simps)
next
  case (Finite a)
  then have a: "0 \<le> a" "round_double a = Finite a"
    using assms(2) by (simp_all add: good_distance_simps)
  from assms(1) consider "w = NaN" | "w = Num HUGE_VAL" | r where "w = Num (Finite r)" "0 < r"
    unfolding not_le_zero_double by blast
  then show ?thesis
  proof cases
    case 1
    then show ?thesis using assms(3) by simp
  next
    case 2
    then show ?thesis using assms(3) Finite by (auto simp: good_distance_simps)
  next
    case 3
    then have d': "d' = round_double (a + r)" using assms(3) Finite by simp
    have le: "Finite a \<le> d'"
      using round_double_mono[OF a(1), of "a + r"] 3(2) a(2) d' by simp
    have "good_distance d'"
    proof (cases d')
      case NegInf
      then show ?thesis using le by simp
    next
      case (Finite b)
      then show ?thesis
        using round_double_idem[of "a + r" b] a(1) 3(2) d' by (simp add: good_distance_simps)
    next
      case HUGE_VAL
      then show ?thesis by (simp add: good_distance_simps)
    qed
    then show ?thesis using le Finite by simp
  qed
qed

lemma is_finite_Num: "is_finite (Num d) \<longleftrightarrow> d \<noteq> HUGE_VAL \<and> d \<noteq> NegInf"
  by (cases d) simp_all

section \<open>Building a graph: properties\<close>

lemma map_of_insert_out_edge:
  "map_of (insert_out_edge k edge ns) k' =
     map_option (\<lambda>n. if k' = k then n\<lparr>out_edges := edge # out_edges n\<rparr> else n) (map_of ns k')"
  by (induction ns) (auto simp: insert_out_edge_def)

lemma map_of_insert_in_edge:
  "map_of (insert_in_edge k edge ns) k' =
     map_option (\<lambda>n. if k' = k then n\<lparr>in_edges := edge # in_edges n\<rparr> else n) (map_of ns k')"
  by (induction ns) (auto simp: insert_in_edge_def)

lemma keys_insert_out_edge: "map fst (insert_out_edge k edge ns) = map fst ns"
  by (induction ns) (auto simp: insert_out_edge_def)

lemma keys_insert_in_edge: "map fst (insert_in_edge k edge ns) = map fst ns"
  by (induction ns) (auto simp: insert_in_edge_def)

lemma link_added_insert:
  assumes "contains g s" "contains g e"
  shows "link_added g s e w
           (g\<lparr>nodes := insert_in_edge e \<lparr>weight = w, start = s, end_node = e\<rparr>
                         (insert_out_edge s \<lparr>weight = w, start = s, end_node = e\<rparr> (nodes g))\<rparr>)"
  using assms
  by (auto simp: link_added_def Let_def contains_def out_edges_of_def in_edges_of_def
        map_of_insert_out_edge map_of_insert_in_edge keys_insert_out_edge keys_insert_in_edge
        split: option.splits)

lemma create_link_result:
  "create_link g s e w =
     (if \<not> contains g s \<or> \<not> contains g e then (Inl UnknownNode, g)
      else if w \<le> 0 then (Inl InvalidWeight, g)
      else if \<exists>x \<in> set (out_edges_of g s). end_node x = e then (Inl DuplicateEdge, g)
      else (Inr (), g\<lparr>nodes := insert_in_edge e \<lparr>weight = w, start = s, end_node = e\<rparr>
                        (insert_out_edge s \<lparr>weight = w, start = s, end_node = e\<rparr> (nodes g))\<rparr>))"
  by (simp add: create_link_def graph_edge_def)

lemma two_nodes_eq: "two_nodes = \<lparr>nodes =
    [(1, \<lparr>name = 1, out_edges = [\<lparr>weight = Num (Finite 5), start = 1, end_node = 2\<rparr>], in_edges = []\<rparr>),
     (2, \<lparr>name = 2, out_edges = [], in_edges = [\<lparr>weight = Num (Finite 5), start = 1, end_node = 2\<rparr>]\<rparr>)]\<rparr>"
  by (simp add: two_nodes_def create_node_def create_link_def contains_def graph_edge_def
        out_edges_of_def insert_out_edge_def insert_in_edge_def le_zero_double)

text \<open>
  Kotlin's \<^verbatim>\<open>insertEdge\<close> fails in the same situations and succeeds with the same
  result; it differs from \<^verbatim>\<open>create_link\<close> only when the weight is not positive and
  the edge exists already, where it reports the existing edge.
\<close>

lemma insertEdge_outcome:
  "(\<not> contains g s \<or> \<not> contains g e \<longrightarrow> fst (insertEdge g s e w) = Inl UnknownNode) \<and>
   (contains g s \<and> contains g e \<and> (\<exists>x \<in> set (out_edges_of g s). end_node x = e)
      \<longrightarrow> fst (insertEdge g s e w) = Inl DuplicateEdge) \<and>
   (contains g s \<and> contains g e \<and> w \<le> 0 \<and> \<not> (\<exists>x \<in> set (out_edges_of g s). end_node x = e)
      \<longrightarrow> fst (insertEdge g s e w) = Inl InvalidWeight) \<and>
   (contains g s \<and> contains g e \<and> \<not> w \<le> 0 \<and> \<not> (\<exists>x \<in> set (out_edges_of g s). end_node x = e)
      \<longrightarrow> insertEdge g s e w = create_link g s e w)"
  by (auto simp: insertEdge_def create_link_def graph_edge_def Let_def)

lemma insertEdge_failure_atomic:
  "fst (insertEdge g s e w) \<noteq> Inr () \<longrightarrow> snd (insertEdge g s e w) = g"
  by (simp add: insertEdge_def Let_def)

text \<open>
  C4. \<^verbatim>\<open>create_link(start, end, weight)\<close> fails with \<open>UnknownNode\<close> when either name is
  absent from the graph; with both present it fails with \<open>InvalidWeight\<close> when
  \<^verbatim>\<open>weight <= 0\<close>, and otherwise with \<open>DuplicateEdge\<close> when the start node has an
  outgoing edge to the end node already; in every other case it succeeds and adds
  exactly one new edge of that weight to the outgoing collection of the start node
  and the same edge to the incoming collection of the end node. The weight is any
  double; the four cases cover them all (\<^verbatim>\<open>weight <= 0\<close> is false of NaN).
\<close>

theorem create_link_outcome:
  "(\<not> contains g s \<or> \<not> contains g e \<longrightarrow> fst (create_link g s e w) = Inl UnknownNode) \<and>
   (contains g s \<and> contains g e \<and> w \<le> 0 \<longrightarrow> fst (create_link g s e w) = Inl InvalidWeight) \<and>
   (contains g s \<and> contains g e \<and> \<not> w \<le> 0 \<and> (\<exists>x \<in> set (out_edges_of g s). end_node x = e)
      \<longrightarrow> fst (create_link g s e w) = Inl DuplicateEdge) \<and>
   (contains g s \<and> contains g e \<and> \<not> w \<le> 0 \<and> \<not> (\<exists>x \<in> set (out_edges_of g s). end_node x = e)
      \<longrightarrow> fst (create_link g s e w) = Inr () \<and> link_added g s e w (snd (create_link g s e w)))"
  using link_added_insert[of g s e w]
  by (auto simp: create_link_result)

theorem create_link_outcome_witness:
  "fst (create_link two_nodes 1 3 (Num (Finite 1))) = Inl UnknownNode \<and>
   fst (create_link two_nodes 2 1 (Num (Finite (- 1)))) = Inl InvalidWeight \<and>
   fst (create_link two_nodes 1 2 (Num (Finite 4))) = Inl DuplicateEdge \<and>
   fst (create_link two_nodes 2 1 (Num (Finite 3))) = Inr () \<and>
   link_added two_nodes 2 1 (Num (Finite 3)) (snd (create_link two_nodes 2 1 (Num (Finite 3)))) \<and>
   fst (create_link two_nodes 2 1 NaN) = Inr () \<and>
   link_added two_nodes 2 1 NaN (snd (create_link two_nodes 2 1 NaN))"
proof -
  have c: "contains two_nodes 1" "contains two_nodes 2" "\<not> contains two_nodes 3"
    by (simp_all add: two_nodes_eq contains_def)
  have d: "\<exists>x \<in> set (out_edges_of two_nodes 1). end_node x = 2"
    "\<not> (\<exists>x \<in> set (out_edges_of two_nodes 2). end_node x = 1)"
    by (simp_all add: two_nodes_eq out_edges_of_def)
  show ?thesis
    using create_link_outcome[of two_nodes 1 3 "Num (Finite 1)"]
      create_link_outcome[of two_nodes 2 1 "Num (Finite (- 1))"]
      create_link_outcome[of two_nodes 1 2 "Num (Finite 4)"]
      create_link_outcome[of two_nodes 2 1 "Num (Finite 3)"]
      create_link_outcome[of two_nodes 2 1 NaN] c d
    by (simp add: le_zero_double)
qed

text \<open>
  C10. \<^verbatim>\<open>create_link\<close> is atomic on failure: whenever it does not return normally
  (unknown endpoint, non-positive weight or duplicate edge) the graph is exactly as it
  was before the call.
\<close>

theorem create_link_failure_atomic:
  "(fst (create_link g s e w) \<noteq> Inr () \<longrightarrow> snd (create_link g s e w) = g) \<and>
   (\<not> contains g s \<or> \<not> contains g e \<or> w \<le> 0 \<or> (\<exists>x \<in> set (out_edges_of g s). end_node x = e)
      \<longrightarrow> fst (create_link g s e w) \<noteq> Inr () \<and> snd (create_link g s e w) = g)"
  by (auto simp: create_link_result)

theorem create_link_failure_atomic_witness:
  "fst (create_link two_nodes 1 2 (Num (Finite (- 4)))) \<noteq> Inr () \<and>
   snd (create_link two_nodes 1 2 (Num (Finite (- 4)))) = two_nodes"
proof -
  have "contains two_nodes 1" by (simp add: two_nodes_eq contains_def)
  then show ?thesis
    using create_link_failure_atomic[of two_nodes 1 2 "Num (Finite (- 4))"]
    by (simp add: le_zero_double)
qed

section \<open>The traversal: properties\<close>

lemma contains_keys: "contains g k = (k \<in> set (keys g))"
  by (simp add: contains_def keys_def map_of_eq_None_iff)

subsection \<open>fill\<close>

lemma upt_shift: "[k ..< k + Suc m] = k # [Suc k ..< Suc k + m]"
  by (simp add: upt_conv_Cons)

lemma fill_working_set_result:
  assumes "distinct (map fst (working_set it) @ map fst ns)"
  shows "steps (fill_working_set ns s it) =
           steps it @ map (\<lambda>itr. \<lparr>current = fst itr,
                 distance = (if fst itr = s then Finite 0 else HUGE_VAL), previous = None\<rparr>) ns \<and>
         working_set (fill_working_set ns s it) =
           working_set it @ zip (map fst ns) [length (steps it) ..< length (steps it) + length ns] \<and>
         current_node (fill_working_set ns s it) = current_node it \<and>
         working_graph (fill_working_set ns s it) = working_graph it"
  using assms
proof (induction ns arbitrary: it)
  case Nil
  show ?case by simp
next
  case (Cons a ns)
  let ?it = "it\<lparr>steps := steps it @ [\<lparr>current = fst a,
                 distance = (if fst a = s then Finite 0 else HUGE_VAL), previous = None\<rparr>],
                 working_set := assign (fst a) (length (steps it)) (working_set it)\<rparr>"
  have "fst a \<notin> fst ` set (working_set it)"
    using Cons.prems by auto
  then have a: "assign (fst a) (length (steps it)) (working_set it) = working_set it @ [(fst a, length (steps it))]"
    by (simp add: assign_def)
  have d: "distinct (map fst (working_set ?it) @ map fst ns)"
    using Cons.prems by (simp add: a)
  show ?case using Cons.IH[OF d] upt_shift[of "length (steps it)" "length ns"]
    by (simp add: Let_def a)
qed

subsection \<open>selection\<close>

lemma scan_entry_Some:
  "scan_entry st (Some a) itr = Some (if distance (st ! snd itr) < distance (st ! a) then snd itr else a)"
  by (simp add: scan_entry_def)

lemma scan_from_Some:
  "\<exists>c. foldl (scan_entry st) (Some a) ws = Some c \<and>
     ((c = a \<and> (\<forall>itr \<in> set ws. distance (st ! a) \<le> distance (st ! snd itr))) \<or>
      (distance (st ! c) < distance (st ! a) \<and> first_min st ws c))"
proof (induction ws rule: rev_induct)
  case Nil
  then show ?case by simp
next
  case (snoc x ws)
  then obtain c where c: "foldl (scan_entry st) (Some a) ws = Some c"
    and d: "(c = a \<and> (\<forall>itr \<in> set ws. distance (st ! a) \<le> distance (st ! snd itr))) \<or>
      (distance (st ! c) < distance (st ! a) \<and> first_min st ws c)"
    by blast
  show ?case
  proof (cases "distance (st ! snd x) < distance (st ! c)")
    case True
    have le: "\<forall>itr \<in> set ws. distance (st ! snd x) < distance (st ! snd itr)"
      using d True by (fastforce simp: first_min_def)
    have "first_min st (ws @ [x]) (snd x)"
      unfolding first_min_def
      by (rule exI[of _ ws], rule exI[of _ "fst x"], rule exI[of _ "[]"]) (use le in simp)
    moreover have "distance (st ! snd x) < distance (st ! a)"
      using d True by auto
    ultimately show ?thesis
      using c True by (simp add: scan_entry_Some)
  next
    case False
    from d show ?thesis
    proof
      assume "c = a \<and> (\<forall>itr \<in> set ws. distance (st ! a) \<le> distance (st ! snd itr))"
      then show ?thesis using c False by (auto simp: scan_entry_Some)
    next
      assume h: "distance (st ! c) < distance (st ! a) \<and> first_min st ws c"
      then obtain pre k post where p: "ws = pre @ (k, c) # post"
        "\<forall>itr \<in> set pre. distance (st ! c) < distance (st ! snd itr)"
        "\<forall>itr \<in> set post. distance (st ! c) \<le> distance (st ! snd itr)"
        unfolding first_min_def by blast
      have "first_min st (ws @ [x]) c"
        unfolding first_min_def
        by (rule exI[of _ pre], rule exI[of _ k], rule exI[of _ "post @ [x]"]) (use p False in auto)
      then show ?thesis using c False h by (simp add: scan_entry_Some)
    qed
  qed
qed

lemma scan_entry_None: "scan_entry st None itr = Some (snd itr)"
  by (simp add: scan_entry_def)

lemma selection_first_min:
  assumes "ws \<noteq> []"
  shows "\<exists>c. foldl (scan_entry st) None ws = Some c \<and> first_min st ws c"
proof -
  obtain x xs where ws: "ws = x # xs" using assms by (cases ws) auto
  obtain c where c: "foldl (scan_entry st) (Some (snd x)) xs = Some c"
    and d: "(c = snd x \<and> (\<forall>itr \<in> set xs. distance (st ! snd x) \<le> distance (st ! snd itr))) \<or>
      (distance (st ! c) < distance (st ! snd x) \<and> first_min st xs c)"
    using scan_from_Some[of st "snd x" xs] by blast
  from d have "first_min st ws c"
  proof
    assume h: "c = snd x \<and> (\<forall>itr \<in> set xs. distance (st ! snd x) \<le> distance (st ! snd itr))"
    show ?thesis unfolding first_min_def ws
      by (rule exI[of _ "[]"], rule exI[of _ "fst x"], rule exI[of _ xs]) (use h in simp)
  next
    assume h: "distance (st ! c) < distance (st ! snd x) \<and> first_min st xs c"
    then obtain pre k post where p: "xs = pre @ (k, c) # post"
        "\<forall>itr \<in> set pre. distance (st ! c) < distance (st ! snd itr)"
        "\<forall>itr \<in> set post. distance (st ! c) \<le> distance (st ! snd itr)"
        unfolding first_min_def by blast
    show ?thesis unfolding first_min_def ws
      by (rule exI[of _ "x # pre"], rule exI[of _ k], rule exI[of _ post]) (use p h in auto)
  qed
  then show ?thesis using c by (simp add: ws scan_entry_None)
qed

subsection \<open>relaxation\<close>

lemma relax_edge_frame:
  "working_set (relax_edge c it e) = working_set it"
  "current_node (relax_edge c it e) = current_node it"
  "working_graph (relax_edge c it e) = working_graph it"
  "length (steps (relax_edge c it e)) = length (steps it)"
  by (simp_all add: relax_edge_def split: option.splits double.splits)

lemma nth_list_update_any:
  "xs[q := v] ! p = (if p = q \<and> q < length xs then v else xs ! p)"
  by (cases "q < length xs") (auto simp: nth_list_update list_update_beyond)

lemma relax_edge_nth:
  "steps (relax_edge c it e) ! p =
     (case map_of (working_set it) (end_node e) of
        None \<Rightarrow> steps it ! p
      | Some q \<Rightarrow>
          (case plus_weight (distance (steps it ! c)) (weight e) of
             NaN \<Rightarrow> steps it ! p
           | Num d \<Rightarrow>
               if p = q \<and> q < length (steps it) \<and> d < distance (steps it ! q)
               then (steps it ! q)\<lparr>distance := d, previous := Some (current (steps it ! c))\<rparr>
               else steps it ! p))"
  by (simp add: relax_edge_def nth_list_update_any split: option.splits double.splits)

lemma relax_edge_current:
  "current (steps (relax_edge c it e) ! p) = current (steps it ! p)"
  by (simp add: relax_edge_nth split: option.splits double.splits)

lemma relax_edge_finished:
  "p \<notin> snd ` set (working_set it) \<Longrightarrow> steps (relax_edge c it e) ! p = steps it ! p"
  by (force simp: relax_edge_nth split: option.splits double.splits dest: map_of_SomeD)

lemma relax_edge_le:
  "distance (steps (relax_edge c it e) ! p) \<le> distance (steps it ! p)"
  by (auto simp: relax_edge_nth less_imp_le split: option.splits double.splits)

lemma relax_edge_change:
  "steps (relax_edge c it e) ! p = steps it ! p \<or>
   (\<exists>d. map_of (working_set it) (end_node e) = Some p \<and>
      plus_weight (distance (steps it ! c)) (weight e) = Num d \<and>
      steps (relax_edge c it e) ! p =
        (steps it ! p)\<lparr>distance := d, previous := Some (current (steps it ! c))\<rparr>)"
  by (simp add: relax_edge_nth split: option.splits double.splits)

lemma relax_edge_bound:
  "map_of (working_set it) (end_node e) = Some q \<Longrightarrow> q < length (steps it) \<Longrightarrow>
   plus_weight (distance (steps it ! c)) (weight e) = Num d \<Longrightarrow>
   distance (steps (relax_edge c it e) ! q) \<le> d"
  by (auto simp: relax_edge_nth not_less)

lemma relax_fold_frame:
  "working_set (foldl (relax_edge c) it es) = working_set it \<and>
   current_node (foldl (relax_edge c) it es) = current_node it \<and>
   working_graph (foldl (relax_edge c) it es) = working_graph it \<and>
   length (steps (foldl (relax_edge c) it es)) = length (steps it)"
  by (induction es arbitrary: it) (simp_all add: relax_edge_frame)

lemma relax_fold_current:
  "current (steps (foldl (relax_edge c) it es) ! p) = current (steps it ! p)"
  by (induction es arbitrary: it) (simp_all add: relax_edge_current)

lemma relax_fold_finished:
  "p \<notin> snd ` set (working_set it) \<Longrightarrow> steps (foldl (relax_edge c) it es) ! p = steps it ! p"
  by (induction es arbitrary: it) (simp_all add: relax_edge_finished relax_edge_frame)

lemma relax_fold_le:
  "distance (steps (foldl (relax_edge c) it es) ! p) \<le> distance (steps it ! p)"
proof (induction es arbitrary: it)
  case Nil
  show ?case by simp
next
  case (Cons e es)
  have "distance (steps (foldl (relax_edge c) (relax_edge c it e) es) ! p)
          \<le> distance (steps (relax_edge c it e) ! p)"
    by (rule Cons.IH)
  also have "\<dots> \<le> distance (steps it ! p)"
    by (rule relax_edge_le)
  finally show ?case by simp
qed

lemma relax_fold_change:
  assumes "c \<notin> snd ` set (working_set it)"
  shows "steps (foldl (relax_edge c) it es) ! p = steps it ! p \<or>
   (\<exists>e \<in> set es. \<exists>d. map_of (working_set it) (end_node e) = Some p \<and>
      plus_weight (distance (steps it ! c)) (weight e) = Num d \<and>
      steps (foldl (relax_edge c) it es) ! p =
        (steps it ! p)\<lparr>distance := d, previous := Some (current (steps it ! c))\<rparr>)"
  using assms
proof (induction es arbitrary: it)
  case Nil
  show ?case by simp
next
  case (Cons e es)
  let ?it = "relax_edge c it e"
  have c: "steps ?it ! c = steps it ! c"
    using Cons.prems by (rule relax_edge_finished)
  have ws: "working_set ?it = working_set it"
    by (simp add: relax_edge_frame)
  have ih: "steps (foldl (relax_edge c) ?it es) ! p = steps ?it ! p \<or>
   (\<exists>e' \<in> set es. \<exists>d. map_of (working_set it) (end_node e') = Some p \<and>
      plus_weight (distance (steps it ! c)) (weight e') = Num d \<and>
      steps (foldl (relax_edge c) ?it es) ! p =
        (steps ?it ! p)\<lparr>distance := d, previous := Some (current (steps it ! c))\<rparr>)"
    using Cons.IH[of ?it] Cons.prems by (simp add: ws c)
  have one: "steps ?it ! p = steps it ! p \<or>
   (\<exists>d. map_of (working_set it) (end_node e) = Some p \<and>
      plus_weight (distance (steps it ! c)) (weight e) = Num d \<and>
      steps ?it ! p = (steps it ! p)\<lparr>distance := d, previous := Some (current (steps it ! c))\<rparr>)"
    by (rule relax_edge_change)
  from ih show ?case
  proof
    assume "steps (foldl (relax_edge c) ?it es) ! p = steps ?it ! p"
    then show ?thesis using one by auto
  next
    assume "\<exists>e' \<in> set es. \<exists>d. map_of (working_set it) (end_node e') = Some p \<and>
      plus_weight (distance (steps it ! c)) (weight e') = Num d \<and>
      steps (foldl (relax_edge c) ?it es) ! p =
        (steps ?it ! p)\<lparr>distance := d, previous := Some (current (steps it ! c))\<rparr>"
    then obtain e' d where e': "e' \<in> set es" "map_of (working_set it) (end_node e') = Some p"
      "plus_weight (distance (steps it ! c)) (weight e') = Num d"
      "steps (foldl (relax_edge c) ?it es) ! p =
        (steps ?it ! p)\<lparr>distance := d, previous := Some (current (steps it ! c))\<rparr>"
      by blast
    from one have "steps (foldl (relax_edge c) ?it es) ! p =
        (steps it ! p)\<lparr>distance := d, previous := Some (current (steps it ! c))\<rparr>"
      using e'(4) by auto
    then show ?thesis using e'(1,2,3) by auto
  qed
qed

lemma relax_fold_bound:
  assumes "c \<notin> snd ` set (working_set it)" "e \<in> set es"
    "map_of (working_set it) (end_node e) = Some q" "q < length (steps it)"
    "plus_weight (distance (steps it ! c)) (weight e) = Num d"
  shows "distance (steps (foldl (relax_edge c) it es) ! q) \<le> d"
  using assms
proof (induction es arbitrary: it)
  case Nil
  then show ?case by simp
next
  case (Cons e' es)
  let ?it = "relax_edge c it e'"
  have c: "steps ?it ! c = steps it ! c"
    using Cons.prems(1) by (rule relax_edge_finished)
  have ws: "working_set ?it = working_set it" "length (steps ?it) = length (steps it)"
    by (simp_all add: relax_edge_frame)
  show ?case
  proof (cases "e \<in> set es")
    case True
    then show ?thesis
      using Cons.IH[of ?it] Cons.prems by (simp add: ws c)
  next
    case False
    then have "e = e'" using Cons.prems(2) by simp
    then have "distance (steps ?it ! q) \<le> d"
      using relax_edge_bound[of it e q c d] Cons.prems by simp
    moreover have "distance (steps (foldl (relax_edge c) ?it es) ! q) \<le> distance (steps ?it ! q)"
      by (rule relax_fold_le)
    ultimately show ?thesis by simp
  qed
qed

subsection \<open>The three ways through iter\<close>

lemma iter_cases:
  obtains
    (empty) "working_set it = []" "iter it = it\<lparr>current_node := None\<rparr>"
  | (unreachable) c where "working_set it \<noteq> []" "first_min (steps it) (working_set it) c"
      "distance (steps it ! c) = HUGE_VAL"
      "iter it = it\<lparr>current_node := None,
                     working_set := erase (current (steps it ! c)) (working_set it)\<rparr>"
  | (step) c where "working_set it \<noteq> []" "first_min (steps it) (working_set it) c"
      "distance (steps it ! c) \<noteq> HUGE_VAL"
      "iter it = foldl (relax_edge c)
                   (it\<lparr>current_node := Some c,
                       working_set := erase (current (steps it ! c)) (working_set it)\<rparr>)
                   (out_edges_of (working_graph it) (current (steps it ! c)))"
proof (cases "working_set it = []")
  case True
  then show ?thesis using empty by (simp add: iter_def)
next
  case False
  then obtain c where c: "foldl (scan_entry (steps it)) None (working_set it) = Some c"
    "first_min (steps it) (working_set it) c"
    using selection_first_min by blast
  show ?thesis
  proof (cases "distance (steps it ! c) = HUGE_VAL")
    case True
    then show ?thesis using unreachable[of c] False c by (simp add: iter_def Let_def)
  next
    case d: False
    then show ?thesis using step[of c] False c by (simp add: iter_def Let_def)
  qed
qed

subsection \<open>The working set and the store stay linked\<close>

lemma first_min_mem: "first_min st ws c \<Longrightarrow> c \<in> snd ` set ws"
  by (force simp: first_min_def)

lemma first_min_le: "first_min st ws c \<Longrightarrow> itr \<in> set ws \<Longrightarrow> distance (st ! c) \<le> distance (st ! snd itr)"
  by (auto simp: first_min_def less_imp_le)

lemma linked_entry:
  "linked g it \<Longrightarrow> (k, p) \<in> set (working_set it) \<Longrightarrow> p < length (steps it) \<and> current (steps it ! p) = k"
  by (auto simp: linked_def)

lemma linked_map_of:
  "linked g it \<Longrightarrow> map_of (working_set it) k = Some p \<longleftrightarrow> (k, p) \<in> set (working_set it)"
  by (auto simp: linked_def)

lemma linked_selected:
  assumes "linked g it" "c \<in> snd ` set (working_set it)"
  shows "(current (steps it ! c), c) \<in> set (working_set it)" "c < length (steps it)"
  using assms by (auto simp: linked_def)

lemma erase_ptrs:
  assumes "linked g it" "c \<in> snd ` set (working_set it)"
  shows "snd ` set (erase (current (steps it ! c)) (working_set it)) = snd ` set (working_set it) - {c}"
proof -
  have d: "distinct (map fst (working_set it))" using assms(1) by (simp add: linked_def)
  have m: "(current (steps it ! c), c) \<in> set (working_set it)"
    using assms by (rule linked_selected)
  show ?thesis
  proof (intro set_eqI iffI)
    fix p assume "p \<in> snd ` set (erase (current (steps it ! c)) (working_set it))"
    then obtain k where k: "(k, p) \<in> set (working_set it)" "k \<noteq> current (steps it ! c)"
      by (auto simp: erase_def)
    then have "current (steps it ! p) = k" using assms(1) linked_entry by fastforce
    then have "p \<noteq> c" using k(2) by auto
    then show "p \<in> snd ` set (working_set it) - {c}" using k(1) by force
  next
    fix p assume "p \<in> snd ` set (working_set it) - {c}"
    then obtain k where k: "(k, p) \<in> set (working_set it)" "p \<noteq> c" by auto
    have "k \<noteq> current (steps it ! c)"
    proof
      assume "k = current (steps it ! c)"
      then have "c = p"
        using d m k(1) eq_key_imp_eq_value[of "working_set it" k c p] by simp
      then show False using k(2) by simp
    qed
    then show "p \<in> snd ` set (erase (current (steps it ! c)) (working_set it))"
      using k(1) by (force simp: erase_def)
  qed
qed

lemma erase_subset: "set (erase k ws) \<subseteq> set ws"
  by (auto simp: erase_def)

lemma erase_distinct: "distinct (map fst ws) \<Longrightarrow> distinct (map fst (erase k ws))"
  by (simp add: erase_def distinct_map_filter)

lemma erase_length:
  "(k, c) \<in> set ws \<Longrightarrow> length (erase k ws) < length ws"
  unfolding erase_def by (rule length_filter_less[of "(k, c)"]) auto

lemma iter_current_node_None:
  "working_set it = [] \<Longrightarrow> current_node (iter it) = None"
  by (simp add: iter_def)

lemma linked_iter:
  assumes "linked g it"
  shows "linked g (iter it)"
proof (cases it rule: iter_cases)
  case empty
  then show ?thesis using assms by (simp add: linked_def)
next
  case (unreachable c)
  show ?thesis
    using assms erase_subset[of "current (steps it ! c)" "working_set it"]
    by (auto simp: unreachable(4) linked_def erase_distinct)
next
  case (step c)
  let ?it1 = "it\<lparr>current_node := Some c,
                  working_set := erase (current (steps it ! c)) (working_set it)\<rparr>"
  let ?es = "out_edges_of (working_graph it) (current (steps it ! c))"
  have c: "c \<in> snd ` set (working_set it)"
    using step(2) by (rule first_min_mem)
  have ptrs: "snd ` set (working_set ?it1) = snd ` set (working_set it) - {c}"
    using erase_ptrs[OF assms c] by simp
  have fr: "working_set (iter it) = working_set ?it1" "current_node (iter it) = Some c"
    "working_graph (iter it) = working_graph it" "length (steps (iter it)) = length (steps it)"
    using relax_fold_frame[of c ?it1 ?es] by (simp_all add: step(4))
  have cur: "map current (steps (iter it)) = map current (steps it)"
    using relax_fold_current[of c ?it1 ?es] fr(4)
    by (auto simp: step(4) intro!: nth_equalityI)
  have "\<forall>itr \<in> set (working_set (iter it)).
          snd itr < length (steps (iter it)) \<and> current (steps (iter it) ! snd itr) = fst itr"
  proof
    fix itr assume "itr \<in> set (working_set (iter it))"
    then have "itr \<in> set (working_set it)"
      using fr(1) erase_subset[of "current (steps it ! c)" "working_set it"] by auto
    then have "snd itr < length (steps it) \<and> current (steps it ! snd itr) = fst itr"
      using assms by (simp add: linked_def)
    moreover have "current (steps (iter it) ! snd itr) = current (steps it ! snd itr)"
      using relax_fold_current[of c ?it1 ?es "snd itr"] by (simp add: step(4))
    ultimately show "snd itr < length (steps (iter it)) \<and> current (steps (iter it) ! snd itr) = fst itr"
      using fr(4) by simp
  qed
  moreover have "distinct (map fst (working_set (iter it)))"
    using assms fr(1) by (simp add: linked_def erase_distinct)
  moreover have "c < length (steps (iter it))"
    using linked_selected(2)[OF assms c] fr(4) by simp
  moreover have "c \<notin> snd ` set (working_set (iter it))"
    using fr(1) ptrs by simp
  ultimately show ?thesis
    using assms fr cur by (simp add: linked_def)
qed

lemma iter_shrinks:
  assumes "linked g it" "working_set it \<noteq> []"
  shows "length (working_set (iter it)) < length (working_set it)"
proof (cases it rule: iter_cases)
  case empty
  then show ?thesis using assms by simp
next
  case (unreachable c)
  have "(current (steps it ! c), c) \<in> set (working_set it)"
    using linked_selected(1)[OF assms(1) first_min_mem[OF unreachable(2)]] .
  then show ?thesis
    using erase_length by (simp add: unreachable(4))
next
  case (step c)
  have "(current (steps it ! c), c) \<in> set (working_set it)"
    using linked_selected(1)[OF assms(1) first_min_mem[OF step(2)]] .
  then show ?thesis
    using erase_length relax_fold_frame[of c "it\<lparr>current_node := Some c,
                  working_set := erase (current (steps it ! c)) (working_set it)\<rparr>"]
    by (simp add: step(4))
qed

text \<open>A step that has left the working set is never written again.\<close>

lemma iter_finished:
  assumes "linked g it" "finished it p"
  shows "steps (iter it) ! p = steps it ! p" "finished (iter it) p"
proof -
  have "steps (iter it) ! p = steps it ! p \<and> finished (iter it) p"
  proof (cases it rule: iter_cases)
    case empty
    then show ?thesis using assms by (simp add: finished_def)
  next
    case (unreachable c)
    then show ?thesis
      using assms erase_subset[of "current (steps it ! c)" "working_set it"]
      by (auto simp: finished_def)
  next
    case (step c)
    let ?it1 = "it\<lparr>current_node := Some c,
                  working_set := erase (current (steps it ! c)) (working_set it)\<rparr>"
    have p: "p \<notin> snd ` set (working_set ?it1)"
      using assms(2) erase_subset[of "current (steps it ! c)" "working_set it"]
      by (auto simp: finished_def)
    then have "steps (iter it) ! p = steps it ! p"
      using relax_fold_finished[of p ?it1 c] by (simp add: step(4))
    moreover have "finished (iter it) p"
      using p assms(2) relax_fold_frame[of c ?it1] by (simp add: finished_def step(4))
    ultimately show ?thesis by simp
  qed
  then show "steps (iter it) ! p = steps it ! p" "finished (iter it) p" by simp_all
qed

lemma linked_current_finished:
  "linked g it \<Longrightarrow> current_node it = Some c \<Longrightarrow> finished it c"
  by (simp add: linked_def finished_def)

lemma linked_funpow: "linked g it \<Longrightarrow> linked g ((iter ^^ n) it)"
  by (induction n) (simp_all add: linked_iter)

lemma funpow_finished:
  assumes "linked g it" "finished it p"
  shows "steps ((iter ^^ n) it) ! p = steps it ! p \<and> finished ((iter ^^ n) it) p"
proof (induction n)
  case 0
  show ?case using assms by simp
next
  case (Suc n)
  then show ?case
    using iter_finished[OF linked_funpow[OF assms(1), of n], of p] by simp
qed

lemma reachable_refl: "reachable g s s"
  by (simp add: reachable_def)

lemma reachable_step:
  "reachable g s u \<Longrightarrow> e \<in> set (out_edges_of g u) \<Longrightarrow> reachable g s (end_node e)"
  unfolding reachable_def by (erule rtrancl_into_rtrancl) auto

lemma assert_end_holds:
  "wf_graph g \<Longrightarrow> k \<in> set (keys g) \<Longrightarrow> e \<in> set (out_edges_of g k) \<Longrightarrow> contains g (end_node e)"
  by (simp add: wf_graph_def contains_keys)

subsection \<open>What a selection-and-relaxation round does\<close>

lemma map_of_erase:
  "distinct (map fst ws) \<Longrightarrow> map_of (erase k ws) k' = Some p \<longleftrightarrow> (k', p) \<in> set ws \<and> k' \<noteq> k"
  by (auto simp: erase_def distinct_map_filter)

lemma iter_step_facts:
  assumes l: "linked g it" and fm: "first_min (steps it) (working_set it) c"
    and it': "iter it = foldl (relax_edge c)
                   (it\<lparr>current_node := Some c,
                       working_set := erase (current (steps it ! c)) (working_set it)\<rparr>)
                   (out_edges_of (working_graph it) (current (steps it ! c)))"
  shows "working_set (iter it) = erase (current (steps it ! c)) (working_set it)"
    and "current_node (iter it) = Some c"
    and "length (steps (iter it)) = length (steps it)"
    and "finished (iter it) p \<longleftrightarrow> finished it p \<or> p = c"
    and "finished it p \<or> p = c \<Longrightarrow> steps (iter it) ! p = steps it ! p"
    and "current (steps (iter it) ! p) = current (steps it ! p)"
    and "distance (steps (iter it) ! p) \<le> distance (steps it ! p)"
    and "steps (iter it) ! p = steps it ! p \<or>
         (\<exists>e \<in> set (out_edges_of g (current (steps it ! c))). \<exists>d.
            (end_node e, p) \<in> set (working_set it) \<and> p \<noteq> c \<and>
            plus_weight (distance (steps it ! c)) (weight e) = Num d \<and>
            steps (iter it) ! p =
              (steps it ! p)\<lparr>distance := d, previous := Some (current (steps it ! c))\<rparr>)"
    and "e \<in> set (out_edges_of g (current (steps it ! c))) \<Longrightarrow>
         (end_node e, p) \<in> set (working_set it) \<Longrightarrow> p \<noteq> c \<Longrightarrow>
         plus_weight (distance (steps it ! c)) (weight e) = Num d \<Longrightarrow>
         distance (steps (iter it) ! p) \<le> d"
proof -
  let ?k = "current (steps it ! c)"
  let ?it1 = "it\<lparr>current_node := Some c, working_set := erase ?k (working_set it)\<rparr>"
  let ?es = "out_edges_of (working_graph it) ?k"
  have g: "working_graph it = g" and d: "distinct (map fst (working_set it))"
    using l by (simp_all add: linked_def)
  have c: "c \<in> snd ` set (working_set it)"
    using fm by (rule first_min_mem)
  have kc: "(?k, c) \<in> set (working_set it)" and clen: "c < length (steps it)"
    using linked_selected[OF l c] by simp_all
  have ptrs: "snd ` set (working_set ?it1) = snd ` set (working_set it) - {c}"
    using erase_ptrs[OF l c] by simp
  have cfin: "c \<notin> snd ` set (working_set ?it1)"
    using ptrs by simp
  have mo: "map_of (working_set ?it1) k' = Some q \<longleftrightarrow> (k', q) \<in> set (working_set it) \<and> q \<noteq> c"
    for k' q
  proof -
    have a: "map_of (erase ?k (working_set it)) k' = Some q \<longleftrightarrow>
               (k', q) \<in> set (working_set it) \<and> k' \<noteq> ?k"
      by (rule map_of_erase[OF d])
    have b: "k' \<noteq> ?k \<longleftrightarrow> q \<noteq> c" if m: "(k', q) \<in> set (working_set it)"
    proof
      assume "k' \<noteq> ?k"
      moreover have "current (steps it ! q) = k'"
        using linked_entry[OF l m] by simp
      ultimately show "q \<noteq> c" by blast
    next
      assume n: "q \<noteq> c"
      show "k' \<noteq> ?k"
      proof
        assume "k' = ?k"
        then have "(?k, q) \<in> set (working_set it)" using m by simp
        then have "c = q" using eq_key_imp_eq_value[OF d kc] by blast
        then show False using n by simp
      qed
    qed
    have "working_set ?it1 = erase ?k (working_set it)" by simp
    then show ?thesis using a b by metis
  qed
  show ws: "working_set (iter it) = erase ?k (working_set it)"
    and "current_node (iter it) = Some c"
    and len: "length (steps (iter it)) = length (steps it)"
    using relax_fold_frame[of c ?it1 ?es] by (simp_all add: it')
  show fin: "finished (iter it) p \<longleftrightarrow> finished it p \<or> p = c"
    using ptrs clen c by (auto simp: finished_def ws len)
  show "finished it p \<or> p = c \<Longrightarrow> steps (iter it) ! p = steps it ! p"
    using relax_fold_finished[of p ?it1 c ?es] ptrs by (auto simp: it' finished_def)
  show "current (steps (iter it) ! p) = current (steps it ! p)"
    using relax_fold_current[of c ?it1 ?es p] by (simp add: it')
  show "distance (steps (iter it) ! p) \<le> distance (steps it ! p)"
    using relax_fold_le[of c ?it1 ?es p] by (simp add: it')
  show "steps (iter it) ! p = steps it ! p \<or>
         (\<exists>e \<in> set (out_edges_of g ?k). \<exists>d.
            (end_node e, p) \<in> set (working_set it) \<and> p \<noteq> c \<and>
            plus_weight (distance (steps it ! c)) (weight e) = Num d \<and>
            steps (iter it) ! p =
              (steps it ! p)\<lparr>distance := d, previous := Some ?k\<rparr>)"
    using relax_fold_change[OF cfin, of ?es p] mo by (simp add: it' g)
  show "distance (steps (iter it) ! p) \<le> d"
    if "e \<in> set (out_edges_of g ?k)" "(end_node e, p) \<in> set (working_set it)" "p \<noteq> c"
      "plus_weight (distance (steps it ! c)) (weight e) = Num d"
  proof -
    have "map_of (working_set ?it1) (end_node e) = Some p"
      using mo that by simp
    moreover have "p < length (steps ?it1)"
      using linked_entry[OF l that(2)] by simp
    ultimately show ?thesis
      using relax_fold_bound[OF cfin, of e ?es p d] that(1,4) by (simp add: it' g)
  qed
qed

subsection \<open>The invariant is kept by iter\<close>

lemma linked_key_mem:
  "linked g it \<Longrightarrow> p < length (steps it) \<Longrightarrow> current (steps it ! p) \<in> set (keys g)"
  by (metis length_map linked_def nth_map nth_mem)

lemma linked_key_ptr:
  assumes "linked g it" "k \<in> set (keys g)"
  shows "\<exists>q < length (steps it). current (steps it ! q) = k"
proof -
  have "k \<in> set (map current (steps it))" using assms by (simp add: linked_def)
  then show ?thesis by (auto simp: in_set_conv_nth)
qed

lemma linked_not_in_ws:
  assumes "linked g it" "q < length (steps it)" "(current (steps it ! q), q) \<notin> set (working_set it)"
  shows "finished it q"
  using assms linked_selected(1)[OF assms(1), of q] by (auto simp: finished_def)

lemma pred_ok_mono:
  assumes "steps it' = steps it" "\<And>q. finished it q \<Longrightarrow> finished it' q" "pred_ok g s it p"
  shows "pred_ok g s it' p"
  using assms by (auto simp: pred_ok_def split: option.splits)

lemma inv_empty:
  assumes "dijkstra_inv g s it" "iter it = it\<lparr>current_node := None\<rparr>"
  shows "dijkstra_inv g s (iter it)"
proof -
  have "linked g (iter it)" using assms(1) linked_iter by (auto simp: dijkstra_inv_def)
  moreover have "closest (iter it)" by (simp add: assms(2) closest_def)
  moreover have "\<forall>p < length (steps (iter it)). pred_ok g s (iter it) p"
  proof (intro allI impI)
    fix p assume "p < length (steps (iter it))"
    then have "pred_ok g s it p" using assms by (simp add: dijkstra_inv_def)
    then show "pred_ok g s (iter it) p"
      by (rule pred_ok_mono[rotated 2]) (simp_all add: assms(2) finished_def)
  qed
  moreover have "relaxed g (iter it)"
    using assms by (simp add: dijkstra_inv_def relaxed_def finished_def)
  moreover have "sound g s (iter it)"
    using assms by (simp add: dijkstra_inv_def sound_def)
  moreover have "source_found s (iter it)"
    using assms by (simp add: dijkstra_inv_def source_found_def)
  moreover have "terminal_ok (iter it)"
    using assms by (simp add: dijkstra_inv_def terminal_ok_def finished_def)
  moreover have "distances_ok (iter it)"
    using assms by (simp add: dijkstra_inv_def distances_ok_def)
  ultimately show ?thesis by (simp add: dijkstra_inv_def)
qed

lemma inv_unreachable:
  assumes inv: "dijkstra_inv g s it" and fm: "first_min (steps it) (working_set it) c"
    and huge: "distance (steps it ! c) = HUGE_VAL"
    and it': "iter it = it\<lparr>current_node := None,
                     working_set := erase (current (steps it ! c)) (working_set it)\<rparr>"
  shows "dijkstra_inv g s (iter it)"
proof -
  have l: "linked g it" using inv by (simp add: dijkstra_inv_def)
  have c: "c \<in> snd ` set (working_set it)" using fm by (rule first_min_mem)
  have st: "steps (iter it) = steps it" by (simp add: it')
  have ws: "set (working_set (iter it)) \<subseteq> set (working_set it)"
    using erase_subset[of "current (steps it ! c)" "working_set it"] by (simp add: it')
  have fin: "finished (iter it) p \<longleftrightarrow> finished it p \<or> p = c" for p
    using erase_ptrs[OF l c] linked_selected(2)[OF l c] c by (auto simp: finished_def it')
  have allhuge: "\<forall>itr \<in> set (working_set it). distance (steps it ! snd itr) = HUGE_VAL"
    using first_min_le[OF fm] huge by (simp add: HUGE_VAL_le)
  have "linked g (iter it)" using l by (rule linked_iter)
  moreover have "closest (iter it)" by (simp add: it' closest_def)
  moreover have "\<forall>p < length (steps (iter it)). pred_ok g s (iter it) p"
  proof (intro allI impI)
    fix p assume "p < length (steps (iter it))"
    then have "pred_ok g s it p" using inv by (simp add: dijkstra_inv_def st)
    then show "pred_ok g s (iter it) p"
      by (rule pred_ok_mono[rotated 2]) (simp_all add: st fin)
  qed
  moreover have "relaxed g (iter it)"
    using inv huge unfolding dijkstra_inv_def relaxed_def st fin by metis
  moreover have "sound g s (iter it)"
    using inv by (simp add: dijkstra_inv_def sound_def st)
  moreover have "source_found s (iter it)"
    using inv by (simp add: dijkstra_inv_def source_found_def st)
  moreover have "terminal_ok (iter it)"
    unfolding terminal_ok_def st using allhuge ws by blast
  moreover have "distances_ok (iter it)"
    using inv by (simp add: dijkstra_inv_def distances_ok_def st)
  ultimately show ?thesis by (simp add: dijkstra_inv_def)
qed

lemma inv_step:
  assumes wf: "wf_graph g" and inv: "dijkstra_inv g s it"
    and fm: "first_min (steps it) (working_set it) c"
    and fin_c: "distance (steps it ! c) \<noteq> HUGE_VAL"
    and it': "iter it = foldl (relax_edge c)
                   (it\<lparr>current_node := Some c,
                       working_set := erase (current (steps it ! c)) (working_set it)\<rparr>)
                   (out_edges_of (working_graph it) (current (steps it ! c)))"
  shows "dijkstra_inv g s (iter it)"
proof -
  let ?k = "current (steps it ! c)"
  let ?D = "distance (steps it ! c)"
  have l: "linked g it" using inv by (simp add: dijkstra_inv_def)
  note f = iter_step_facts[OF l fm it']
  have c: "c \<in> snd ` set (working_set it)" using fm by (rule first_min_mem)
  have kc: "(?k, c) \<in> set (working_set it)" and clen: "c < length (steps it)"
    using linked_selected[OF l c] by simp_all
  have kmem: "?k \<in> set (keys g)" using linked_key_mem[OF l clen] .
  have pos: "\<not> weight e \<le> 0 \<and> end_node e \<in> set (keys g)" if "e \<in> set (out_edges_of g ?k)" for e
    using wf kmem that by (auto simp: wf_graph_def)
  have good: "good_distance (distance (steps it ! q))" if "q < length (steps it)" for q
    using inv that by (simp add: dijkstra_inv_def distances_ok_def)
  have sum: "?D \<le> d \<and> good_distance d"
    if "e \<in> set (out_edges_of g ?k)" "plus_weight ?D (weight e) = Num d" for e d
    using plus_weight_ge[OF _ good[OF clen] that(2)] pos[OF that(1)] by simp
  have stc: "steps (iter it) ! c = steps it ! c" using f(5)[of c] by simp
  have nohuge: "distance (steps it ! q) \<noteq> HUGE_VAL" if "finished it q" for q
  proof
    assume "distance (steps it ! q) = HUGE_VAL"
    then have "distance (steps it ! snd (?k, c)) = HUGE_VAL"
      using inv that kc unfolding dijkstra_inv_def terminal_ok_def by blast
    then show False using fin_c by simp
  qed
  have l': "linked g (iter it)" using l by (rule linked_iter)
  have "closest (iter it)"
    unfolding closest_def
  proof (intro allI impI conjI ballI)
    fix c' assume "current_node (iter it) = Some c'"
    then have cc: "c' = c" using f(2) by simp
    show "distance (steps (iter it) ! c') \<noteq> HUGE_VAL" using fin_c by (simp add: cc stc)
    fix itr assume "itr \<in> set (working_set (iter it))"
    then have m: "itr \<in> set (working_set it)"
      using erase_subset[of ?k "working_set it"] by (auto simp: f(1))
    have le: "?D \<le> distance (steps it ! snd itr)" using first_min_le[OF fm m] .
    from f(8)[of "snd itr"] have "?D \<le> distance (steps (iter it) ! snd itr)"
    proof
      assume "steps (iter it) ! snd itr = steps it ! snd itr"
      then show ?thesis using le by simp
    next
      assume "\<exists>e\<in>set (out_edges_of g ?k). \<exists>d. (end_node e, snd itr) \<in> set (working_set it) \<and>
          snd itr \<noteq> c \<and> plus_weight ?D (weight e) = Num d \<and>
          steps (iter it) ! snd itr =
            (steps it ! snd itr)\<lparr>distance := d, previous := Some ?k\<rparr>"
      then obtain e d where e: "e \<in> set (out_edges_of g ?k)"
        "plus_weight ?D (weight e) = Num d"
        "steps (iter it) ! snd itr =
            (steps it ! snd itr)\<lparr>distance := d, previous := Some ?k\<rparr>"
        by blast
      have "?D \<le> d"
        using sum[OF e(1,2)] by simp
      then show ?thesis by (simp add: e(3))
    qed
    then show "distance (steps (iter it) ! c') \<le> distance (steps (iter it) ! snd itr)"
      by (simp add: cc stc)
  qed
  moreover have "\<forall>p < length (steps (iter it)). pred_ok g s (iter it) p"
  proof (intro allI impI)
    fix p assume "p < length (steps (iter it))"
    then have plen: "p < length (steps it)" by (simp add: f(3))
    have old: "pred_ok g s it p" using inv plen by (simp add: dijkstra_inv_def)
    from f(8)[of p] show "pred_ok g s (iter it) p"
    proof
      assume same: "steps (iter it) ! p = steps it ! p"
      show ?thesis
      proof (cases "previous (steps it ! p)")
        case None
        then show ?thesis using old same by (simp add: pred_ok_def)
      next
        case (Some k)
        then obtain q e where q: "finished it q" "q \<noteq> p" "current (steps it ! q) = k"
          "distance (steps it ! q) \<noteq> HUGE_VAL" "e \<in> set (out_edges_of g k)"
          "end_node e = current (steps it ! p)"
          "Num (distance (steps it ! p)) = plus_weight (distance (steps it ! q)) (weight e)"
          using old by (auto simp: pred_ok_def)
        have "steps (iter it) ! q = steps it ! q" using f(5)[of q] q(1) by simp
        moreover have "finished (iter it) q" using f(4)[of q] q(1) by simp
        ultimately show ?thesis
          using q Some same unfolding pred_ok_def by (simp) (metis)
      qed
    next
      assume "\<exists>e\<in>set (out_edges_of g ?k). \<exists>d. (end_node e, p) \<in> set (working_set it) \<and>
          p \<noteq> c \<and> plus_weight ?D (weight e) = Num d \<and> steps (iter it) ! p =
            (steps it ! p)\<lparr>distance := d, previous := Some ?k\<rparr>"
      then obtain e d where e: "e \<in> set (out_edges_of g ?k)" "(end_node e, p) \<in> set (working_set it)"
        "p \<noteq> c" "Num d = plus_weight ?D (weight e)" "steps (iter it) ! p =
            (steps it ! p)\<lparr>distance := d, previous := Some ?k\<rparr>"
        by metis
      have "current (steps it ! p) = end_node e" using linked_entry[OF l e(2)] by simp
      moreover have "finished (iter it) c" using f(4)[of c] by simp
      ultimately show ?thesis
        unfolding pred_ok_def using e fin_c stc
        by (simp) (metis)
    qed
  qed
  moreover have "relaxed g (iter it)"
    unfolding relaxed_def
  proof (intro allI impI ballI)
    fix p e
    assume p: "finished (iter it) p" "distance (steps (iter it) ! p) \<noteq> HUGE_VAL"
      and e: "e \<in> set (out_edges_of g (current (steps (iter it) ! p)))"
      and fs: "is_finite (plus_weight (distance (steps (iter it) ! p)) (weight e))"
    have same: "steps (iter it) ! p = steps it ! p" using f(5)[of p] f(4)[of p] p(1) by simp
    show "\<exists>q < length (steps (iter it)). current (steps (iter it) ! q) = end_node e \<and>
            distance (steps (iter it) ! q) \<noteq> HUGE_VAL"
    proof (cases "p = c")
      case True
      then have e': "e \<in> set (out_edges_of g ?k)" using e same by simp
      obtain q where q: "q < length (steps it)" "current (steps it ! q) = end_node e"
        using linked_key_ptr[OF l] pos[OF e'] by blast
      have "distance (steps (iter it) ! q) \<noteq> HUGE_VAL"
      proof (cases "(end_node e, q) \<in> set (working_set it)")
        case inws: True
        show ?thesis
        proof (cases "q = c")
          case True
          then show ?thesis using fin_c stc by simp
        next
          case False
          obtain d where d: "plus_weight ?D (weight e) = Num d" "d \<noteq> HUGE_VAL"
            using fs same True by (cases "plus_weight ?D (weight e)") (auto simp: is_finite_Num)
          have "distance (steps (iter it) ! q) \<le> d"
            using f(9)[OF e' inws False d(1)] .
          then show ?thesis using d(2) by (rule le_finite)
        qed
      next
        case False
        then have fq: "finished it q" using linked_not_in_ws[OF l q(1)] q(2) by simp
        then have "steps (iter it) ! q = steps it ! q" using f(5)[of q] by simp
        then show ?thesis using nohuge[OF fq] by simp
      qed
      then show ?thesis using q f(3) f(6)[of q] by auto
    next
      case False
      then have fp: "finished it p" using f(4)[of p] p(1) by simp
      then obtain q where q: "q < length (steps it)" "current (steps it ! q) = end_node e"
        "distance (steps it ! q) \<noteq> HUGE_VAL"
        using inv p(2) e fs same unfolding dijkstra_inv_def relaxed_def by (simp) blast
      have "distance (steps (iter it) ! q) \<noteq> HUGE_VAL"
        using le_finite[OF f(7)[of q] q(3)] .
      then show ?thesis using q f(3) f(6)[of q] by auto
    qed
  qed
  moreover have "sound g s (iter it)"
    unfolding sound_def
  proof (intro allI impI)
    fix p assume p: "p < length (steps (iter it))" "distance (steps (iter it) ! p) \<noteq> HUGE_VAL"
    have old: "\<And>q. q < length (steps it) \<Longrightarrow> distance (steps it ! q) \<noteq> HUGE_VAL \<Longrightarrow>
                 reachable g s (current (steps it ! q))"
      using inv by (simp add: dijkstra_inv_def sound_def)
    from f(8)[of p] show "reachable g s (current (steps (iter it) ! p))"
    proof
      assume "steps (iter it) ! p = steps it ! p"
      then show ?thesis using old[of p] p f(3) by simp
    next
      assume "\<exists>e\<in>set (out_edges_of g ?k). \<exists>d. (end_node e, p) \<in> set (working_set it) \<and>
          p \<noteq> c \<and> plus_weight ?D (weight e) = Num d \<and> steps (iter it) ! p =
            (steps it ! p)\<lparr>distance := d, previous := Some ?k\<rparr>"
      then obtain e where e: "e \<in> set (out_edges_of g ?k)" "(end_node e, p) \<in> set (working_set it)"
        by blast
      have "current (steps (iter it) ! p) = end_node e"
        using linked_entry[OF l e(2)] f(6)[of p] by simp
      moreover have "reachable g s ?k" using old[OF clen fin_c] .
      ultimately show ?thesis using reachable_step[OF _ e(1)] by simp
    qed
  qed
  moreover have "source_found s (iter it)"
  proof -
    obtain q where q: "q < length (steps it)" "current (steps it ! q) = s"
      "distance (steps it ! q) \<noteq> HUGE_VAL"
      using inv by (auto simp: dijkstra_inv_def source_found_def)
    have "distance (steps (iter it) ! q) \<noteq> HUGE_VAL"
      using le_finite[OF f(7)[of q] q(3)] .
    then show ?thesis unfolding source_found_def using q f(3) f(6)[of q] by auto
  qed
  moreover have "terminal_ok (iter it)"
    unfolding terminal_ok_def
  proof (intro allI impI)
    fix p assume p: "finished (iter it) p" "distance (steps (iter it) ! p) = HUGE_VAL"
    have same: "steps (iter it) ! p = steps it ! p" using f(5)[of p] f(4)[of p] p(1) by simp
    have "p \<noteq> c" using p(2) same fin_c by auto
    then have "finished it p" using f(4)[of p] p(1) by simp
    then have False using nohuge p(2) same by auto
    then show "\<forall>itr \<in> set (working_set (iter it)). distance (steps (iter it) ! snd itr) = HUGE_VAL"
      by simp
  qed
  moreover have "distances_ok (iter it)"
    unfolding distances_ok_def
  proof (intro allI impI)
    fix p assume "p < length (steps (iter it))"
    then have plen: "p < length (steps it)" by (simp add: f(3))
    from f(8)[of p] show "good_distance (distance (steps (iter it) ! p))"
    proof
      assume "steps (iter it) ! p = steps it ! p"
      then show ?thesis using good[OF plen] by simp
    next
      assume "\<exists>e\<in>set (out_edges_of g ?k). \<exists>d. (end_node e, p) \<in> set (working_set it) \<and>
          p \<noteq> c \<and> plus_weight ?D (weight e) = Num d \<and> steps (iter it) ! p =
            (steps it ! p)\<lparr>distance := d, previous := Some ?k\<rparr>"
      then obtain e d where e: "e \<in> set (out_edges_of g ?k)"
        "plus_weight ?D (weight e) = Num d"
        "steps (iter it) ! p = (steps it ! p)\<lparr>distance := d, previous := Some ?k\<rparr>"
        by blast
      show ?thesis using sum[OF e(1,2)] by (simp add: e(3))
    qed
  qed
  ultimately show ?thesis using l' by (simp add: dijkstra_inv_def)
qed

lemma dijkstra_inv_iter:
  assumes "wf_graph g" "dijkstra_inv g s it"
  shows "dijkstra_inv g s (iter it)"
proof (cases it rule: iter_cases)
  case empty
  then show ?thesis using inv_empty[OF assms(2)] by simp
next
  case (unreachable c)
  then show ?thesis using inv_unreachable[OF assms(2)] by simp
next
  case (step c)
  then show ?thesis using inv_step[OF assms] by simp
qed

subsection \<open>The iterator before the first call of iter\<close>

lemma filled_fields:
  assumes "distinct (keys g)"
  shows "steps (filled g s) =
           map (\<lambda>itr. \<lparr>current = fst itr,
                 distance = (if fst itr = s then Finite 0 else HUGE_VAL), previous = None\<rparr>) (nodes g)"
    and "working_set (filled g s) = zip (keys g) [0 ..< length (nodes g)]"
    and "current_node (filled g s) = None"
    and "working_graph (filled g s) = g"
  using fill_working_set_result[of "\<lparr>steps = [], working_set = [], current_node = None, working_graph = g\<rparr>" "nodes g" s]
    assms
  by (simp_all add: filled_def keys_def)

lemma iterator_begin:
  "contains g s \<Longrightarrow> dijkstra_traversal_iterator g s True = Inr (iter (filled g s))"
  by (simp add: dijkstra_traversal_iterator_def filled_def)

lemma filled_nth:
  assumes "distinct (keys g)" "p < length (nodes g)"
  shows "steps (filled g s) ! p =
           \<lparr>current = keys g ! p,
            distance = (if keys g ! p = s then Finite 0 else HUGE_VAL), previous = None\<rparr>"
  using assms by (simp add: filled_fields keys_def)

lemma filled_ptrs:
  assumes "distinct (keys g)"
  shows "snd ` set (working_set (filled g s)) = {0 ..< length (nodes g)}"
proof -
  have "map snd (zip (keys g) [0 ..< length (nodes g)]) = [0 ..< length (nodes g)]"
    by (simp add: keys_def)
  then have "snd ` set (zip (keys g) [0 ..< length (nodes g)]) = set [0 ..< length (nodes g)]"
    by (metis set_map)
  then show ?thesis using assms by (simp add: filled_fields)
qed

lemma filled_not_finished:
  assumes "distinct (keys g)"
  shows "\<not> finished (filled g s) p"
  using filled_ptrs[OF assms, of s] assms by (auto simp: finished_def filled_fields)

lemma linked_filled:
  assumes "distinct (keys g)"
  shows "linked g (filled g s)"
proof -
  have "map current (steps (filled g s)) = keys g"
    using assms by (simp add: filled_fields keys_def comp_def)
  moreover have "distinct (map fst (working_set (filled g s)))"
    using assms by (simp add: filled_fields keys_def)
  moreover have "\<forall>itr \<in> set (working_set (filled g s)).
      snd itr < length (steps (filled g s)) \<and> current (steps (filled g s) ! snd itr) = fst itr"
  proof
    fix itr assume "itr \<in> set (working_set (filled g s))"
    then have "itr \<in> set (zip (keys g) [0 ..< length (nodes g)])"
      using assms by (simp add: filled_fields)
    then obtain i where i: "i < length (nodes g)" "itr = (keys g ! i, i)"
      by (auto simp: set_zip keys_def)
    then show "snd itr < length (steps (filled g s)) \<and> current (steps (filled g s) ! snd itr) = fst itr"
      using filled_nth[OF assms i(1), of s] assms by (simp add: filled_fields(1))
  qed
  ultimately show ?thesis
    using assms by (simp add: linked_def filled_fields(3,4))
qed

lemma inv_filled:
  assumes wf: "wf_graph g" and s: "contains g s"
  shows "dijkstra_inv g s (filled g s)"
proof -
  have d: "distinct (keys g)" using wf by (simp add: wf_graph_def)
  have len: "length (steps (filled g s)) = length (nodes g)"
    using d by (simp add: filled_fields)
  have "closest (filled g s)"
    using d by (simp add: closest_def filled_fields)
  moreover have "\<forall>p < length (steps (filled g s)). pred_ok g s (filled g s) p"
    using filled_nth[OF d] by (simp add: pred_ok_def len)
  moreover have "relaxed g (filled g s)"
    using filled_not_finished[OF d] by (simp add: relaxed_def)
  moreover have "sound g s (filled g s)"
    using filled_nth[OF d] by (auto simp: sound_def len reachable_refl split: if_splits)
  moreover have "source_found s (filled g s)"
  proof -
    obtain p where p: "p < length (nodes g)" "keys g ! p = s"
      using s by (auto simp: contains_keys in_set_conv_nth keys_def)
    then show ?thesis
      unfolding source_found_def using filled_nth[OF d p(1), of s] len by auto
  qed
  moreover have "terminal_ok (filled g s)"
    using filled_not_finished[OF d] by (simp add: terminal_ok_def)
  moreover have "distances_ok (filled g s)"
    using filled_nth[OF d] by (simp add: distances_ok_def len good_distance_simps round_double_0)
  ultimately show ?thesis
    using linked_filled[OF d] by (simp add: dijkstra_inv_def)
qed

subsection \<open>What the result of iter tells about the round\<close>

lemma iter_Some:
  assumes "current_node (iter it) = Some c"
  shows "first_min (steps it) (working_set it) c \<and> distance (steps it ! c) \<noteq> HUGE_VAL \<and>
         iter it = foldl (relax_edge c)
                   (it\<lparr>current_node := Some c,
                       working_set := erase (current (steps it ! c)) (working_set it)\<rparr>)
                   (out_edges_of (working_graph it) (current (steps it ! c)))"
proof (cases it rule: iter_cases)
  case empty
  then show ?thesis using assms by simp
next
  case (unreachable c')
  then show ?thesis using assms by simp
next
  case (step c')
  have "current_node (iter it) = Some c'"
    using relax_fold_frame[of c' "it\<lparr>current_node := Some c',
                       working_set := erase (current (steps it ! c')) (working_set it)\<rparr>"]
    by (simp add: step(4))
  then have "c' = c" using assms by simp
  then show ?thesis using step by simp
qed

lemma iter_None:
  assumes "current_node (iter it) = None"
  shows "steps (iter it) = steps it \<and>
         ((working_set it = [] \<and> working_set (iter it) = []) \<or>
          (\<exists>c. first_min (steps it) (working_set it) c \<and> distance (steps it ! c) = HUGE_VAL \<and>
               working_set (iter it) = erase (current (steps it ! c)) (working_set it)))"
proof (cases it rule: iter_cases)
  case empty
  then show ?thesis by simp
next
  case (unreachable c)
  then show ?thesis by auto
next
  case (step c)
  have "current_node (iter it) = Some c"
    using relax_fold_frame[of c "it\<lparr>current_node := Some c,
                       working_set := erase (current (steps it ! c)) (working_set it)\<rparr>"]
    by (simp add: step(4))
  then show ?thesis using assms by simp
qed

subsection \<open>The loop ends, and an induction rule for it\<close>

lemma range_for_None: "current_node it = None \<Longrightarrow> range_for it = Some []"
  by (subst range_for.simps) simp

lemma range_for_Some:
  "current_node it = Some p \<Longrightarrow>
   range_for it = Option.bind (range_for (iter it)) (\<lambda>rest. Some ((steps it ! p) # rest))"
  by (subst range_for.simps) simp

lemma range_for_induct [consumes 3, case_names last step]:
  assumes wf: "wf_graph g" and inv: "dijkstra_inv g s it" and cur: "current_node it = Some p"
    and last: "\<And>it p. dijkstra_inv g s it \<Longrightarrow> current_node it = Some p \<Longrightarrow>
                 current_node (iter it) = None \<Longrightarrow> P it [steps it ! p]"
    and step: "\<And>it p p' ys. dijkstra_inv g s it \<Longrightarrow> current_node it = Some p \<Longrightarrow>
                 current_node (iter it) = Some p' \<Longrightarrow> range_for (iter it) = Some ys \<Longrightarrow>
                 P (iter it) ys \<Longrightarrow> P it ((steps it ! p) # ys)"
  shows "\<exists>ys. range_for it = Some ys \<and> P it ys"
  using inv cur
proof (induction "length (working_set it)" arbitrary: it p rule: less_induct)
  case less
  have l: "linked g it" using less.prems(1) by (simp add: dijkstra_inv_def)
  show ?case
  proof (cases "current_node (iter it)")
    case None
    then have "range_for it = Some [steps it ! p]"
      using less.prems(2) by (simp add: range_for_Some range_for_None)
    then show ?thesis using last[OF less.prems None] by simp
  next
    case (Some p')
    have "working_set it \<noteq> []"
      using Some iter_current_node_None[of it] by auto
    then have "length (working_set (iter it)) < length (working_set it)"
      using iter_shrinks[OF l] by simp
    then obtain ys where ys: "range_for (iter it) = Some ys" "P (iter it) ys"
      using less.hyps[of "iter it" p'] dijkstra_inv_iter[OF wf less.prems(1)] Some by blast
    have "range_for it = Some ((steps it ! p) # ys)"
      using less.prems(2) ys(1) by (simp add: range_for_Some)
    then show ?thesis using step[OF less.prems Some ys] by simp
  qed
qed

lemma traverse_begin:
  "contains g s \<Longrightarrow> traverse g s = Inr (range_for (iter (filled g s)))"
  by (simp add: traverse_def traversal_begin_def dijkstra_traversal_def iterator_begin)

subsection \<open>The first round selects the source\<close>

lemma iter_Some_facts:
  assumes l: "linked g it" and c: "current_node (iter it) = Some c"
  shows "c \<in> snd ` set (working_set it)"
    and "distance (steps it ! c) \<noteq> HUGE_VAL"
    and "steps (iter it) ! c = steps it ! c"
    and "finished (iter it) q \<longleftrightarrow> finished it q \<or> q = c"
    and "finished it q \<Longrightarrow> steps (iter it) ! q = steps it ! q"
    and "\<not> finished it c"
proof -
  note s = iter_Some[OF c]
  note f = iter_step_facts[OF l s[THEN conjunct1] s[THEN conjunct2, THEN conjunct2]]
  show m: "c \<in> snd ` set (working_set it)" using s first_min_mem by blast
  show "distance (steps it ! c) \<noteq> HUGE_VAL" using s by simp
  show "steps (iter it) ! c = steps it ! c" using f(5)[of c] by simp
  show "finished (iter it) q \<longleftrightarrow> finished it q \<or> q = c" using f(4)[of q] .
  show "finished it q \<Longrightarrow> steps (iter it) ! q = steps it ! q" using f(5)[of q] by simp
  show "\<not> finished it c" using m by (simp add: finished_def)
qed

lemma first_round:
  assumes wf: "wf_graph g" and s: "contains g s"
  shows "\<exists>p. current_node (iter (filled g s)) = Some p \<and>
             steps (iter (filled g s)) ! p = \<lparr>current = s, distance = Finite 0, previous = None\<rparr> \<and>
             (\<forall>q. finished (iter (filled g s)) q \<longleftrightarrow> q = p)"
proof -
  let ?F = "filled g s"
  have d: "distinct (keys g)" using wf by (simp add: wf_graph_def)
  have l: "linked g ?F" using linked_filled[OF d] .
  obtain ps where ps: "ps < length (nodes g)" "keys g ! ps = s"
    using s by (auto simp: contains_keys in_set_conv_nth keys_def)
  have "(keys g ! ps, [0 ..< length (nodes g)] ! ps) \<in> set (zip (keys g) [0 ..< length (nodes g)])"
    unfolding set_zip using ps(1) by (auto simp: keys_def intro!: exI[of _ ps])
  then have psws: "(s, ps) \<in> set (working_set ?F)"
    using ps d by (simp add: filled_fields)
  have psd: "distance (steps ?F ! ps) = Finite 0"
    using filled_nth[OF d ps(1), of s] ps(2) by simp
  have "\<exists>c. current_node (iter ?F) = Some c"
  proof (rule ccontr)
    assume "\<not> (\<exists>c. current_node (iter ?F) = Some c)"
    then have "current_node (iter ?F) = None" by simp
    from iter_None[OF this] psws obtain c where c: "first_min (steps ?F) (working_set ?F) c"
      "distance (steps ?F ! c) = HUGE_VAL"
      by auto
    have "distance (steps ?F ! c) \<le> distance (steps ?F ! snd (s, ps))"
      using first_min_le[OF c(1) psws] .
    then show False using c(2) psd by simp
  qed
  then obtain c where c: "current_node (iter ?F) = Some c" by blast
  note f = iter_Some_facts[OF l c]
  have clen: "c < length (nodes g)"
    using f(1) filled_ptrs[OF d, of s] by simp
  have "keys g ! c = s"
    using f(2) filled_nth[OF d clen, of s] by (auto split: if_splits)
  then have "steps (iter ?F) ! c = \<lparr>current = s, distance = Finite 0, previous = None\<rparr>"
    using f(3) filled_nth[OF d clen, of s] by simp
  moreover have "\<forall>q. finished (iter ?F) q \<longleftrightarrow> q = c"
    using f(4) filled_not_finished[OF d, of s] by simp
  ultimately show ?thesis using c by blast
qed

subsection \<open>Order of the steps\<close>

lemma next_step_not_closer:
  assumes inv: "dijkstra_inv g s it" and p: "current_node it = Some p"
    and p': "current_node (iter it) = Some p'"
  shows "distance (steps it ! p) \<le> distance (steps (iter it) ! p')"
proof -
  have l: "linked g it" using inv by (simp add: dijkstra_inv_def)
  note f = iter_Some_facts[OF l p']
  obtain k where "(k, p') \<in> set (working_set it)" using f(1) by auto
  then have "distance (steps it ! p) \<le> distance (steps it ! snd (k, p'))"
    using inv p unfolding dijkstra_inv_def closest_def by blast
  then show ?thesis using f(3) by simp
qed

lemma range_for_sorted:
  assumes wf: "wf_graph g" and inv: "dijkstra_inv g s it" and cur: "current_node it = Some p"
  shows "\<exists>ys. range_for it = Some ys \<and>
           (sorted (map distance ys) \<and> (\<forall>c. current_node it = Some c \<longrightarrow> ys \<noteq> [] \<and> hd ys = steps it ! c))"
  using assms
proof (induction rule: range_for_induct)
  case (last it p)
  then show ?case by simp
next
  case (step it p p' ys)
  then obtain y ys' where ys: "ys = y # ys'" "y = steps (iter it) ! p'"
    by (cases ys) auto
  have le: "distance (steps it ! p) \<le> distance y"
    using next_step_not_closer[OF step(1,2,3)] ys(2) by simp
  then have "\<forall>x \<in> set ys'. distance (steps it ! p) \<le> distance x"
    using step(5) ys by (auto intro: order_trans)
  then show ?case using le step ys by simp
qed

text \<open>
  C1. For every graph the library builds (\<open>wf_graph\<close>: every weight has passed the test
  of \<^verbatim>\<open>create_link\<close>) and every source node present in it, the loop over the traversal
  ends, the steps it receives have non-decreasing distances, and the first of them is
  the source node with distance 0 and no predecessor. Rounding does not disturb the
  order: it is monotone, so the sum of a stored distance and such a weight is never
  less than the distance.
\<close>

theorem traversal_order:
  assumes "wf_graph g" and "contains g s"
  shows "\<exists>ys. traverse g s = Inr (Some (\<lparr>current = s, distance = Finite 0, previous = None\<rparr> # ys)) \<and>
              sorted (map distance (\<lparr>current = s, distance = Finite 0, previous = None\<rparr> # ys))"
proof -
  let ?it = "iter (filled g s)"
  obtain p where p: "current_node ?it = Some p"
    "steps ?it ! p = \<lparr>current = s, distance = Finite 0, previous = None\<rparr>"
    using first_round[OF assms] by blast
  have inv: "dijkstra_inv g s ?it"
    using dijkstra_inv_iter[OF assms(1) inv_filled[OF assms]] .
  obtain ys where ys: "range_for ?it = Some ys" "sorted (map distance ys)" "ys \<noteq> []" "hd ys = steps ?it ! p"
    using range_for_sorted[OF assms(1) inv p(1)] p(1) by auto
  then obtain ys' where "ys = \<lparr>current = s, distance = Finite 0, previous = None\<rparr> # ys'"
    using p(2) by (cases ys) auto
  then show ?thesis using ys(1,2) traverse_begin[OF assms(2)] by auto
qed

subsection \<open>Which nodes are yielded\<close>

lemma linked_key_inj:
  assumes "linked g it" "p < length (steps it)" "q < length (steps it)"
    "current (steps it ! p) = current (steps it ! q)"
  shows "p = q"
proof -
  have "distinct (map current (steps it))" using assms(1) by (simp add: linked_def)
  moreover have "map current (steps it) ! p = map current (steps it) ! q"
    using assms by simp
  ultimately show ?thesis
    using assms(2,3) nth_eq_iff_index_eq[of "map current (steps it)" p q] by simp
qed

lemma settled_iter_Some:
  assumes inv: "dijkstra_inv g s it" and c: "current_node (iter it) = Some c"
  shows "settled (iter it) = insert (current (steps it ! c)) (settled it)"
    and "current (steps it ! c) \<notin> settled it"
    and "reachable g s (current (steps it ! c))"
proof -
  have l: "linked g it" using inv by (simp add: dijkstra_inv_def)
  note f = iter_Some_facts[OF l c]
  have clen: "c < length (steps it)" using linked_selected(2)[OF l f(1)] .
  show "settled (iter it) = insert (current (steps it ! c)) (settled it)"
  proof (intro set_eqI iffI)
    fix v assume "v \<in> settled (iter it)"
    then obtain p where p: "v = current (steps (iter it) ! p)" "finished (iter it) p"
      "distance (steps (iter it) ! p) \<noteq> HUGE_VAL"
      by (auto simp: settled_def)
    show "v \<in> insert (current (steps it ! c)) (settled it)"
    proof (cases "p = c")
      case True
      then show ?thesis using p(1) f(3) by simp
    next
      case False
      then have "finished it p" using p(2) f(4)[of p] by simp
      then show ?thesis using p f(5)[of p] by (auto simp: settled_def)
    qed
  next
    fix v assume "v \<in> insert (current (steps it ! c)) (settled it)"
    then show "v \<in> settled (iter it)"
    proof
      assume "v = current (steps it ! c)"
      then show ?thesis
        unfolding settled_def using f(2,3) f(4)[of c] by force
    next
      assume "v \<in> settled it"
      then obtain p where p: "v = current (steps it ! p)" "finished it p"
        "distance (steps it ! p) \<noteq> HUGE_VAL"
        by (auto simp: settled_def)
      then show ?thesis
        unfolding settled_def using f(4)[of p] f(5)[of p] by force
    qed
  qed
  show "current (steps it ! c) \<notin> settled it"
  proof
    assume "current (steps it ! c) \<in> settled it"
    then obtain p where p: "current (steps it ! c) = current (steps it ! p)" "finished it p"
      by (auto simp: settled_def)
    then have "p < length (steps it)" by (simp add: finished_def)
    then have "c = p" using linked_key_inj[OF l clen _ p(1)] by simp
    then show False using p(2) f(6) by simp
  qed
  show "reachable g s (current (steps it ! c))"
    using inv clen f(2) by (simp add: dijkstra_inv_def sound_def)
qed

lemma settled_iter_None:
  assumes inv: "dijkstra_inv g s it" and n: "current_node (iter it) = None"
    and ok: "sums_ok g it"
  shows "{v. reachable g s v} \<subseteq> settled it"
proof -
  have l: "linked g it" using inv by (simp add: dijkstra_inv_def)
  have huge: "\<forall>itr \<in> set (working_set it). distance (steps it ! snd itr) = HUGE_VAL"
  proof -
    from iter_None[OF n] show ?thesis
    proof (elim conjE disjE exE)
      assume "working_set it = []"
      then show ?thesis by simp
    next
      fix c assume "first_min (steps it) (working_set it) c" "distance (steps it ! c) = HUGE_VAL"
      then show ?thesis using first_min_le[of "steps it" "working_set it" c] by (simp add: HUGE_VAL_le)
    qed
  qed
  have fin: "finished it p" if "p < length (steps it)" "distance (steps it ! p) \<noteq> HUGE_VAL" for p
  proof (rule linked_not_in_ws[OF l that(1)])
    show "(current (steps it ! p), p) \<notin> set (working_set it)"
      using huge that(2) by force
  qed
  have src: "s \<in> settled it"
  proof -
    obtain p where p: "p < length (steps it)" "current (steps it ! p) = s"
      "distance (steps it ! p) \<noteq> HUGE_VAL"
      using inv by (auto simp: dijkstra_inv_def source_found_def)
    then show ?thesis using fin[OF p(1,3)] unfolding settled_def by (intro CollectI exI[of _ p]) simp
  qed
  have closed: "end_node e \<in> settled it"
    if u: "u \<in> settled it" and e: "e \<in> set (out_edges_of g u)" for u e
  proof -
    obtain p where p: "u = current (steps it ! p)" "finished it p"
      "distance (steps it ! p) \<noteq> HUGE_VAL"
      using u by (auto simp: settled_def)
    have "is_finite (plus_weight (distance (steps it ! p)) (weight e))"
      using ok p e unfolding sums_ok_def by blast
    then obtain q where q: "q < length (steps it)" "current (steps it ! q) = end_node e"
      "distance (steps it ! q) \<noteq> HUGE_VAL"
      using inv e p unfolding dijkstra_inv_def relaxed_def by blast
    then show ?thesis using fin[OF q(1,3)] unfolding settled_def by (intro CollectI exI[of _ q]) simp
  qed
  have "v \<in> settled it" if "reachable g s v" for v
    using that unfolding reachable_def
  proof (induction rule: rtrancl_induct)
    case base
    show ?case by (rule src)
  next
    case (step u v)
    then show ?case using closed by auto
  qed
  then show ?thesis by auto
qed

lemma current_settled:
  assumes inv: "dijkstra_inv g s it" and p: "current_node it = Some p"
  shows "current (steps it ! p) \<in> settled it"
proof -
  have "finished it p"
    using inv p linked_current_finished by (auto simp: dijkstra_inv_def)
  moreover have "distance (steps it ! p) \<noteq> HUGE_VAL"
    using inv p by (simp add: dijkstra_inv_def closest_def)
  ultimately show ?thesis by (auto simp: settled_def)
qed

lemma range_for_head:
  assumes "range_for it = Some ys" "current_node it = Some p"
  shows "\<exists>ys'. ys = (steps it ! p) # ys'"
  using assms by (auto simp: range_for_Some bind_eq_Some_conv)

lemma sums_ok_iter:
  assumes inv: "dijkstra_inv g s it" and c: "current_node (iter it) = Some c"
    and ok: "sums_ok g it" and y: "sums_finite g [steps (iter it) ! c]"
  shows "sums_ok g (iter it)"
  unfolding sums_ok_def
proof (intro allI impI ballI)
  fix p e
  assume p: "finished (iter it) p" "distance (steps (iter it) ! p) \<noteq> HUGE_VAL"
    and e: "e \<in> set (out_edges_of g (current (steps (iter it) ! p)))"
  have l: "linked g it" using inv by (simp add: dijkstra_inv_def)
  note f = iter_Some_facts[OF l c]
  show "is_finite (plus_weight (distance (steps (iter it) ! p)) (weight e))"
  proof (cases "p = c")
    case True
    then show ?thesis using y e by (simp add: sums_finite_def)
  next
    case False
    then have fp: "finished it p" using p(1) f(4)[of p] by simp
    then have "steps (iter it) ! p = steps it ! p" by (rule f(5))
    then show ?thesis using ok fp p(2) e unfolding sums_ok_def by simp
  qed
qed

lemma range_for_nodes:
  assumes wf: "wf_graph g" and inv: "dijkstra_inv g s it" and cur: "current_node it = Some p"
  shows "\<exists>ys. range_for it = Some ys \<and>
           (\<forall>c. current_node it = Some c \<longrightarrow>
              distinct (map current ys) \<and>
              set (map current ys) \<subseteq> ({v. reachable g s v} - settled it) \<union> {current (steps it ! c)} \<and>
              (sums_ok g it \<longrightarrow> sums_finite g ys \<longrightarrow>
                 set (map current ys) =
                   ({v. reachable g s v} - settled it) \<union> {current (steps it ! c)}))"
  using assms
proof (induction rule: range_for_induct)
  case (last it p)
  then show ?case using settled_iter_None[OF last(1,3)] by auto
next
  case (step it p p' ys)
  have l: "linked g it" using step(1) by (simp add: dijkstra_inv_def)
  note f = iter_Some_facts[OF l step(3)]
  note st = settled_iter_Some[OF step(1,3)]
  let ?k' = "current (steps it ! p')"
  let ?R = "{v. reachable g s v}"
  have ys: "distinct (map current ys)"
    "set (map current ys) \<subseteq> (?R - settled (iter it)) \<union> {?k'}"
    using step(3,5) f(3) by simp_all
  have sub: "set (map current ys) \<subseteq> ?R - settled it"
    using ys(2) st by auto
  have p: "current (steps it ! p) \<in> settled it"
    using current_settled[OF step(1,2)] .
  have eq: "set (map current ys) = ?R - settled it"
    if ok: "sums_ok g it" and fs: "sums_finite g ((steps it ! p) # ys)"
  proof -
    obtain ys' where "ys = (steps (iter it) ! p') # ys'"
      using range_for_head[OF step(4,3)] by blast
    then have "sums_finite g [steps (iter it) ! p']" "sums_finite g ys"
      using fs by (simp_all add: sums_finite_def)
    moreover from this have "sums_ok g (iter it)"
      using sums_ok_iter[OF step(1,3) ok] by simp
    ultimately have "set (map current ys) = (?R - settled (iter it)) \<union> {?k'}"
      using step(3,5) f(3) by simp
    then show ?thesis using st by auto
  qed
  show ?case
  proof (intro allI impI conjI)
    fix c assume c: "current_node it = Some c"
    show "distinct (map current ((steps it ! p) # ys))"
      using ys(1) sub p by auto
    show "set (map current ((steps it ! p) # ys))
            \<subseteq> (?R - settled it) \<union> {current (steps it ! c)}"
      using sub c step(2) by auto
    show "set (map current ((steps it ! p) # ys)) = (?R - settled it) \<union> {current (steps it ! c)}"
      if "sums_ok g it" "sums_finite g ((steps it ! p) # ys)"
      using eq[OF that] c step(2) by auto
  qed
qed

text \<open>
  C3 (amended). For every graph the library builds and every source node present in
  it, a traversal run to exhaustion ends without an error, yields no node twice and no
  node that cannot be reached from the source, and yields the source. When no sum
  overflows (for every yielded step and every edge that leaves its node, the distance
  of the step plus the weight of the edge is a finite double) it yields every node
  that can be reached from the source, so exactly one step per reachable node.
\<close>

theorem traversal_yields_reachable_unless_overflow:
  assumes "wf_graph g" and "contains g s"
  shows "\<exists>ys. traverse g s = Inr (Some ys) \<and> distinct (map current ys) \<and>
              s \<in> set (map current ys) \<and>
              set (map current ys) \<subseteq> {v. reachable g s v} \<and>
              (sums_finite g ys \<longrightarrow>
                 set (map current ys) = {v. reachable g s v} \<and>
                 length ys = card {v. reachable g s v})"
proof -
  let ?it = "iter (filled g s)"
  obtain p where p: "current_node ?it = Some p"
    "steps ?it ! p = \<lparr>current = s, distance = Finite 0, previous = None\<rparr>"
    "\<forall>q. finished ?it q \<longleftrightarrow> q = p"
    using first_round[OF assms] by blast
  have inv: "dijkstra_inv g s ?it"
    using dijkstra_inv_iter[OF assms(1) inv_filled[OF assms]] .
  have "settled ?it = {s}"
    using p(2,3) by (auto simp: settled_def)
  then obtain ys where ys: "range_for ?it = Some ys" "distinct (map current ys)"
    "set (map current ys) \<subseteq> ({v. reachable g s v} - {s}) \<union> {s}"
    "sums_ok g ?it \<longrightarrow> sums_finite g ys \<longrightarrow>
       set (map current ys) = ({v. reachable g s v} - {s}) \<union> {s}"
    using range_for_nodes[OF assms(1) inv p(1)] p(1,2) by auto
  obtain ys' where hd: "ys = (steps ?it ! p) # ys'"
    using range_for_head[OF ys(1) p(1)] by blast
  have src: "s \<in> set (map current ys)"
    using hd p(2) by simp
  have sub: "set (map current ys) \<subseteq> {v. reachable g s v}"
    using ys(3) reachable_refl[of g s] by auto
  have all: "set (map current ys) = {v. reachable g s v} \<and> length ys = card {v. reachable g s v}"
    if fs: "sums_finite g ys"
  proof -
    have "sums_ok g ?it"
      unfolding sums_ok_def using p(3) fs hd by (simp add: sums_finite_def)
    then have set: "set (map current ys) = {v. reachable g s v}"
      using ys(4) fs reachable_refl[of g s] by auto
    have "length ys = card (set (map current ys))"
      using distinct_card[OF ys(2)] by simp
    then show ?thesis using set by simp
  qed
  show ?thesis
    using ys(1,2) src sub all traverse_begin[OF assms(2)] by auto
qed

subsection \<open>Weights that cannot make a sum overflow\<close>

lemma small_product:
  assumes "k \<le> 2 ^ 52" "m \<le> 971"
  shows "int k < 2 ^ 53" "real k * 2 ^ m < 2 ^ 1024"
proof -
  show "int k < 2 ^ 53"
  proof -
    have "int k \<le> int (2 ^ 52)" using assms(1) by (simp only: of_nat_le_iff)
    also have "\<dots> < 2 ^ 53" by simp
    finally show ?thesis .
  qed
  have "real k \<le> real (2 ^ 52)" using assms(1) by (simp only: of_nat_le_iff)
  then have k: "real k \<le> 2 ^ 52" by simp
  have "(2 :: real) ^ m \<le> 2 ^ 971"
    using assms(2) by (intro power_increasing) simp_all
  then have "real k * 2 ^ m \<le> 2 ^ 52 * 2 ^ 971"
    using k by (intro mult_mono) simp_all
  also have "\<dots> = (2 :: real) ^ 1023" by (simp flip: power_add)
  also have "\<dots> < (2 :: real) ^ 1024" by (intro power_strict_increasing) simp_all
  finally show "real k * 2 ^ m < 2 ^ 1024" .
qed

lemma round_double_bound:
  assumes "0 \<le> x" "x \<le> real k * 2 ^ m" "k \<le> 2 ^ 52" "m \<le> 971"
  shows "round_double x \<le> Finite (real k * 2 ^ m)"
proof -
  have "round_double (of_int (int k) * 2 ^ m) = Finite (of_int (int k) * 2 ^ m)"
    using small_product[OF assms(3,4)] by (intro round_double_exact) simp_all
  then have "round_double (real k * 2 ^ m) = Finite (real k * 2 ^ m)" by simp
  then show ?thesis
    using round_double_mono[OF assms(1,2)] by simp
qed

lemma plus_weight_bound:
  assumes g: "good_distance d" and d: "d \<le> Finite (real k * 2 ^ m)"
    and w: "\<not> w \<le> 0" "w \<le> Num (Finite (2 ^ m))"
    and k: "Suc k \<le> 2 ^ 52" "m \<le> 971"
  shows "\<exists>r. plus_weight d w = Num (Finite r) \<and> r \<le> real (Suc k) * 2 ^ m"
proof -
  obtain a where a: "d = Finite a" "0 \<le> a" "a \<le> real k * 2 ^ m"
    using g d by (cases d) (auto simp: good_distance_simps)
  obtain r where r: "w = Num (Finite r)" "0 < r" "r \<le> 2 ^ m"
    using w unfolding not_le_zero_double by auto
  have s: "a + r \<le> real (Suc k) * 2 ^ m"
    using a(3) r(3) by (simp add: algebra_simps)
  have le: "round_double (a + r) \<le> Finite (real (Suc k) * 2 ^ m)"
    using round_double_bound[OF _ s k] a(2) r(2) by simp
  have pw: "plus_weight d w = Num (round_double (a + r))"
    by (simp add: a(1) r(1))
  have ge: "d \<le> round_double (a + r)"
    using plus_weight_ge[OF w(1) g pw] by simp
  show ?thesis
  proof (cases "round_double (a + r)")
    case NegInf
    then show ?thesis using ge a(1) by simp
  next
    case (Finite b)
    then show ?thesis using le pw by simp
  next
    case HUGE_VAL
    then show ?thesis using le by simp
  qed
qed

lemma finished_finite: "finite {q. finished it q}"
  by (rule finite_subset[of _ "{..< length (steps it)}"]) (auto simp: finished_def)

lemma finished_card: "card {q. finished it q} \<le> length (steps it)"
proof -
  have "card {q. finished it q} \<le> card {..< length (steps it)}"
    by (rule card_mono) (auto simp: finished_def)
  then show ?thesis by simp
qed

lemma bounded_mono:
  assumes "bounded m it" "steps it' = steps it" "\<And>q. finished it q \<Longrightarrow> finished it' q"
  shows "bounded m it'"
  unfolding bounded_def
proof (intro allI impI)
  fix p assume p: "p < length (steps it')"
  have "card {q. finished it q} \<le> card {q. finished it' q}"
    using assms(3) by (intro card_mono finished_finite) auto
  then have "real (card {q. finished it q}) * 2 ^ m \<le> real (card {q. finished it' q}) * 2 ^ m"
    by (intro mult_right_mono) simp_all
  then have "Finite (real (card {q. finished it q}) * 2 ^ m)
               \<le> Finite (real (card {q. finished it' q}) * 2 ^ m)"
    by simp
  moreover have "distance (steps it ! p) = HUGE_VAL \<or>
      distance (steps it ! p) \<le> Finite (real (card {q. finished it q}) * 2 ^ m)"
    using assms(1,2) p by (simp add: bounded_def)
  ultimately show "distance (steps it' ! p) = HUGE_VAL \<or>
      distance (steps it' ! p) \<le> Finite (real (card {q. finished it' q}) * 2 ^ m)"
    unfolding assms(2) by (auto intro: order_trans)
qed

lemma bounded_filled:
  assumes "distinct (keys g)"
  shows "bounded m (filled g s)"
  using filled_nth[OF assms] assms by (simp add: bounded_def filled_fields(1))

lemma bounded_step:
  assumes wf: "wf_graph g" and inv: "dijkstra_inv g s it"
    and bw: "bounded_weights g m" and m: "m \<le> 971" and n: "length (nodes g) < 2 ^ 52"
    and b: "bounded m it"
    and fm: "first_min (steps it) (working_set it) c"
    and fin_c: "distance (steps it ! c) \<noteq> HUGE_VAL"
    and it': "iter it = foldl (relax_edge c)
                   (it\<lparr>current_node := Some c,
                       working_set := erase (current (steps it ! c)) (working_set it)\<rparr>)
                   (out_edges_of (working_graph it) (current (steps it ! c)))"
  shows "bounded m (iter it)"
  unfolding bounded_def
proof (intro allI impI)
  let ?k = "current (steps it ! c)"
  let ?D = "distance (steps it ! c)"
  let ?F = "card {q. finished it q}"
  fix p assume "p < length (steps (iter it))"
  have l: "linked g it" using inv by (simp add: dijkstra_inv_def)
  note f = iter_step_facts[OF l fm it']
  have plen: "p < length (steps it)" using \<open>p < length (steps (iter it))\<close> by (simp add: f(3))
  have c: "c \<in> snd ` set (working_set it)" using fm by (rule first_min_mem)
  have clen: "c < length (steps it)" using linked_selected(2)[OF l c] .
  have kmem: "?k \<in> set (keys g)" using linked_key_mem[OF l clen] .
  have nf: "\<not> finished it c" using c by (simp add: finished_def)
  have "{q. finished (iter it) q} = insert c {q. finished it q}"
    using f(4) by auto
  then have F': "card {q. finished (iter it) q} = Suc ?F"
    using nf by (simp add: finished_finite)
  have "length (steps it) = length (nodes g)"
    using l by (metis keys_def length_map linked_def)
  then have "Suc ?F \<le> length (nodes g)"
    using F' finished_card[of "iter it"] f(3) by simp
  then have small: "Suc ?F \<le> 2 ^ 52" using n by simp
  have old: "distance (steps it ! q) = HUGE_VAL \<or> distance (steps it ! q) \<le> Finite (real ?F * 2 ^ m)"
    if "q < length (steps it)" for q
    using b that by (simp add: bounded_def)
  have up: "Finite (real ?F * 2 ^ m) \<le> Finite (real (Suc ?F) * 2 ^ m)"
    by (simp add: algebra_simps)
  from f(8)[of p]
  show "distance (steps (iter it) ! p) = HUGE_VAL \<or>
        distance (steps (iter it) ! p) \<le> Finite (real (card {q. finished (iter it) q}) * 2 ^ m)"
  proof
    assume "steps (iter it) ! p = steps it ! p"
    then show ?thesis
      unfolding F' using old[OF plen] up by (auto intro: order_trans)
  next
    assume "\<exists>e\<in>set (out_edges_of g ?k). \<exists>d. (end_node e, p) \<in> set (working_set it) \<and>
        p \<noteq> c \<and> plus_weight ?D (weight e) = Num d \<and> steps (iter it) ! p =
          (steps it ! p)\<lparr>distance := d, previous := Some ?k\<rparr>"
    then obtain e d where e: "e \<in> set (out_edges_of g ?k)"
      "plus_weight ?D (weight e) = Num d"
      "steps (iter it) ! p = (steps it ! p)\<lparr>distance := d, previous := Some ?k\<rparr>"
      by blast
    have w: "\<not> weight e \<le> 0" "weight e \<le> Num (Finite (2 ^ m))"
      using wf bw kmem e(1) by (auto simp: wf_graph_def bounded_weights_def)
    have g: "good_distance ?D"
      using inv clen by (simp add: dijkstra_inv_def distances_ok_def)
    have D: "?D \<le> Finite (real ?F * 2 ^ m)"
      using old[OF clen] fin_c by simp
    obtain r where "plus_weight ?D (weight e) = Num (Finite r)" "r \<le> real (Suc ?F) * 2 ^ m"
      using plus_weight_bound[OF g D w small m] by blast
    then have "d \<le> Finite (real (Suc ?F) * 2 ^ m)"
      using e(2) by simp
    then show ?thesis unfolding F' by (simp add: e(3))
  qed
qed

lemma bounded_iter:
  assumes "wf_graph g" "dijkstra_inv g s it" "bounded_weights g m" "m \<le> 971"
    "length (nodes g) < 2 ^ 52" "bounded m it"
  shows "bounded m (iter it)"
proof (cases it rule: iter_cases)
  case empty
  show ?thesis
    by (rule bounded_mono[OF assms(6)]) (simp_all add: empty(2) finished_def)
next
  case (unreachable c)
  have "set (erase (current (steps it ! c)) (working_set it)) \<subseteq> set (working_set it)"
    by (rule erase_subset)
  then show ?thesis
    by (intro bounded_mono[OF assms(6)]) (auto simp: unreachable(4) finished_def)
next
  case (step c)
  then show ?thesis using bounded_step[OF assms] by simp
qed

lemma bounded_sums:
  assumes wf: "wf_graph g" and inv: "dijkstra_inv g s it"
    and bw: "bounded_weights g m" and m: "m \<le> 971" and n: "length (nodes g) < 2 ^ 52"
    and b: "bounded m it" and cur: "current_node it = Some p"
  shows "sums_finite g [steps it ! p]"
  unfolding sums_finite_def
proof (intro ballI)
  fix y e
  assume "y \<in> set [steps it ! p]" and e: "e \<in> set (out_edges_of g (current y))"
  then have y: "y = steps it ! p" by simp
  have l: "linked g it" using inv by (simp add: dijkstra_inv_def)
  have plen: "p < length (steps it)" using l cur by (simp add: linked_def)
  have kmem: "current (steps it ! p) \<in> set (keys g)" using linked_key_mem[OF l plen] .
  have w: "\<not> weight e \<le> 0" "weight e \<le> Num (Finite (2 ^ m))"
    using wf bw kmem e y by (auto simp: wf_graph_def bounded_weights_def)
  have g: "good_distance (distance (steps it ! p))"
    using inv plen by (simp add: dijkstra_inv_def distances_ok_def)
  have "distance (steps it ! p) \<noteq> HUGE_VAL"
    using inv cur by (simp add: dijkstra_inv_def closest_def)
  then have D: "distance (steps it ! p) \<le> Finite (real (card {q. finished it q}) * 2 ^ m)"
    using b plen by (auto simp: bounded_def)
  have "length (steps it) = length (nodes g)"
    using l by (metis keys_def length_map linked_def)
  then have "Suc (card {q. finished it q}) \<le> 2 ^ 52"
    using finished_card[of it] n by simp
  then obtain r where "plus_weight (distance (steps it ! p)) (weight e) = Num (Finite r)"
    using plus_weight_bound[OF g D w _ m] by blast
  then show "is_finite (plus_weight (distance y) (weight e))"
    by (simp add: y)
qed

lemma range_for_sums:
  assumes wf: "wf_graph g" and inv: "dijkstra_inv g s it" and cur: "current_node it = Some p"
    and bw: "bounded_weights g m" and m: "m \<le> 971" and n: "length (nodes g) < 2 ^ 52"
  shows "\<exists>ys. range_for it = Some ys \<and> (bounded m it \<longrightarrow> sums_finite g ys)"
  using wf inv cur
proof (induction rule: range_for_induct)
  case (last it p)
  then show ?case using bounded_sums[OF wf _ bw m n] by blast
next
  case (step it p p' ys)
  show ?case
  proof
    assume b: "bounded m it"
    have "sums_finite g [steps it ! p]"
      using bounded_sums[OF wf step(1) bw m n b step(2)] .
    moreover have "sums_finite g ys"
      using step(5) bounded_iter[OF wf step(1) bw m n b] by simp
    ultimately show "sums_finite g ((steps it ! p) # ys)"
      by (simp add: sums_finite_def)
  qed
qed

text \<open>
  In a graph of fewer than \<open>2 ^ 52\<close> nodes whose weights are numbers of at most
  \<open>2 ^ 971\<close>, no sum of a traversal overflows: the condition under which the traversal
  yields every node that can be reached holds of every traversal of such a graph.
\<close>

lemma bounded_weights_sums_finite:
  assumes "wf_graph g" and "contains g s" and "bounded_weights g m" and "m \<le> 971"
    and "length (nodes g) < 2 ^ 52" and "traverse g s = Inr (Some ys)"
  shows "sums_finite g ys"
proof -
  let ?it = "iter (filled g s)"
  have d: "distinct (keys g)" using assms(1) by (simp add: wf_graph_def)
  obtain p where p: "current_node ?it = Some p"
    using first_round[OF assms(1,2)] by blast
  have inv0: "dijkstra_inv g s (filled g s)"
    using inv_filled[OF assms(1,2)] .
  have inv: "dijkstra_inv g s ?it"
    using dijkstra_inv_iter[OF assms(1) inv0] .
  have b: "bounded m ?it"
    using bounded_iter[OF assms(1) inv0 assms(3,4,5) bounded_filled[OF d]] .
  have "range_for ?it = Some ys"
    using assms(6) traverse_begin[OF assms(2)] by simp
  then show ?thesis
    using range_for_sums[OF assms(1) inv p assms(3,4,5)] b by auto
qed

subsection \<open>Predecessors\<close>

lemma pred_in_run_head:
  assumes inv: "dijkstra_inv g s it" and p: "current_node it = Some p"
    and k: "previous (steps it ! p) = Some k"
  shows "\<exists>e \<in> set (out_edges_of g k). end_node e = current (steps it ! p) \<and>
           (\<exists>q. finished it q \<and> current_node it \<noteq> Some q \<and> current (steps it ! q) = k \<and>
                Num (distance (steps it ! p)) = plus_weight (distance (steps it ! q)) (weight e))"
proof -
  have "p < length (steps it)" using inv p by (simp add: dijkstra_inv_def linked_def)
  then have "pred_ok g s it p" using inv by (simp add: dijkstra_inv_def)
  then obtain q e where "finished it q" "q \<noteq> p" "current (steps it ! q) = k"
    "e \<in> set (out_edges_of g k)" "end_node e = current (steps it ! p)"
    "Num (distance (steps it ! p)) = plus_weight (distance (steps it ! q)) (weight e)"
    using k by (auto simp: pred_ok_def)
  then show ?thesis using p by auto
qed

lemma range_for_pred:
  assumes wf: "wf_graph g" and inv: "dijkstra_inv g s it" and cur: "current_node it = Some p"
  shows "\<exists>ys. range_for it = Some ys \<and> pred_in_run g it ys"
  using assms
proof (induction rule: range_for_induct)
  case (last it p)
  show ?case
    unfolding pred_in_run_def using pred_in_run_head[OF last(1,2)] by auto
next
  case (step it p p' ys)
  have l: "linked g it" using step(1) by (simp add: dijkstra_inv_def)
  note f = iter_Some_facts[OF l step(3)]
  show ?case
    unfolding pred_in_run_def
  proof (intro allI impI)
    fix i k
    assume i: "i < length ((steps it ! p) # ys)" and k: "previous (((steps it ! p) # ys) ! i) = Some k"
    let ?ys = "(steps it ! p) # ys"
    show "\<exists>e \<in> set (out_edges_of g k). end_node e = current (?ys ! i) \<and>
           ((\<exists>j < i. current (?ys ! j) = k \<and>
                Num (distance (?ys ! i)) = plus_weight (distance (?ys ! j)) (weight e)) \<or>
            (\<exists>q. finished it q \<and> current_node it \<noteq> Some q \<and> current (steps it ! q) = k \<and>
                Num (distance (?ys ! i)) = plus_weight (distance (steps it ! q)) (weight e)))"
    proof (cases i)
      case 0
      then show ?thesis using pred_in_run_head[OF step(1,2)] k by auto
    next
      case (Suc i')
      then have i': "i' < length ys" "previous (ys ! i') = Some k" using i k by simp_all
      then obtain e where e: "e \<in> set (out_edges_of g k)" "end_node e = current (ys ! i')"
        and d: "(\<exists>j < i'. current (ys ! j) = k \<and>
                Num (distance (ys ! i')) = plus_weight (distance (ys ! j)) (weight e)) \<or>
            (\<exists>q. finished (iter it) q \<and> current_node (iter it) \<noteq> Some q \<and>
                current (steps (iter it) ! q) = k \<and>
                Num (distance (ys ! i')) = plus_weight (distance (steps (iter it) ! q)) (weight e))"
        using step(5) unfolding pred_in_run_def by blast
      from d have "(\<exists>j < i. current (?ys ! j) = k \<and>
                Num (distance (?ys ! i)) = plus_weight (distance (?ys ! j)) (weight e)) \<or>
            (\<exists>q. finished it q \<and> current_node it \<noteq> Some q \<and> current (steps it ! q) = k \<and>
                Num (distance (?ys ! i)) = plus_weight (distance (steps it ! q)) (weight e))"
      proof
        assume "\<exists>j < i'. current (ys ! j) = k \<and>
                Num (distance (ys ! i')) = plus_weight (distance (ys ! j)) (weight e)"
        then obtain j where "j < i'" "current (ys ! j) = k"
          "Num (distance (ys ! i')) = plus_weight (distance (ys ! j)) (weight e)" by blast
        then have "Suc j < i \<and> current (?ys ! Suc j) = k \<and>
                Num (distance (?ys ! i)) = plus_weight (distance (?ys ! Suc j)) (weight e)"
          using Suc by simp
        then show ?thesis by blast
      next
        assume "\<exists>q. finished (iter it) q \<and> current_node (iter it) \<noteq> Some q \<and>
                current (steps (iter it) ! q) = k \<and>
                Num (distance (ys ! i')) = plus_weight (distance (steps (iter it) ! q)) (weight e)"
        then obtain q where q: "finished (iter it) q" "q \<noteq> p'"
          "current (steps (iter it) ! q) = k"
          "Num (distance (ys ! i')) = plus_weight (distance (steps (iter it) ! q)) (weight e)"
          using step(3) by auto
        have fq: "finished it q" using q(1,2) f(4)[of q] by simp
        have same: "steps (iter it) ! q = steps it ! q" using f(5)[OF fq] .
        show ?thesis
        proof (cases "q = p")
          case True
          then have "0 < i \<and> current (?ys ! 0) = k \<and>
                Num (distance (?ys ! i)) = plus_weight (distance (?ys ! 0)) (weight e)"
            using q(3,4) same Suc by simp
          then show ?thesis by blast
        next
          case False
          then have "finished it q \<and> current_node it \<noteq> Some q \<and> current (steps it ! q) = k \<and>
                Num (distance (?ys ! i)) = plus_weight (distance (steps it ! q)) (weight e)"
            using fq q(3,4) same Suc step(2) by simp
          then show ?thesis by blast
        qed
      qed
      then show ?thesis using e Suc by auto
    qed
  qed
qed

text \<open>
  C2. For every yielded step that carries a predecessor \<open>k\<close>: \<open>k\<close> is the node of an
  earlier step of the same traversal, the graph has an edge from \<open>k\<close> to the step's
  node, and the step's distance is the distance yielded for \<open>k\<close> plus the weight of that
  edge, added as the program adds doubles (so the sum is not NaN).
\<close>

theorem predecessor_edge:
  assumes "wf_graph g" and "contains g s" and "traverse g s = Inr (Some ys)"
    and "i < length ys" and "previous (ys ! i) = Some k"
  shows "\<exists>j < i. current (ys ! j) = k \<and>
           (\<exists>e \<in> set (out_edges_of g k). end_node e = current (ys ! i) \<and>
              Num (distance (ys ! i)) = plus_weight (distance (ys ! j)) (weight e))"
proof -
  let ?it = "iter (filled g s)"
  obtain p where p: "current_node ?it = Some p" "\<forall>q. finished ?it q \<longleftrightarrow> q = p"
    using first_round[OF assms(1,2)] by blast
  have inv: "dijkstra_inv g s ?it"
    using dijkstra_inv_iter[OF assms(1) inv_filled[OF assms(1,2)]] .
  have "range_for ?it = Some ys"
    using assms(3) traverse_begin[OF assms(2)] by simp
  then have "pred_in_run g ?it ys"
    using range_for_pred[OF assms(1) inv p(1)] by auto
  then obtain e where e: "e \<in> set (out_edges_of g k)" "end_node e = current (ys ! i)"
    and d: "(\<exists>j < i. current (ys ! j) = k \<and>
                Num (distance (ys ! i)) = plus_weight (distance (ys ! j)) (weight e)) \<or>
            (\<exists>q. finished ?it q \<and> current_node ?it \<noteq> Some q \<and> current (steps ?it ! q) = k \<and>
                Num (distance (ys ! i)) = plus_weight (distance (steps ?it ! q)) (weight e))"
    using assms(4,5) unfolding pred_in_run_def by blast
  have "\<not> (\<exists>q. finished ?it q \<and> current_node ?it \<noteq> Some q \<and> current (steps ?it ! q) = k \<and>
                Num (distance (ys ! i)) = plus_weight (distance (steps ?it ! q)) (weight e))"
    using p by auto
  then show ?thesis using d e by blast
qed

subsection \<open>Steps that were handed out\<close>

text \<open>
  C8. A step is immutable once yielded: when \<^verbatim>\<open>operator*\<close> has returned the step object
  \<open>p\<close> after \<open>i\<close> increments, then after any number \<open>j\<close> of further increments the
  object holds the same node, distance and predecessor, and it is not in the working
  set, which is all the relaxation writes to.
\<close>

theorem yielded_step_immutable:
  assumes "wf_graph g" and "contains g s"
    and "dijkstra_traversal_iterator g s True = Inr it"
    and "current_node ((iter ^^ i) it) = Some p"
  shows "steps ((iter ^^ (i + j)) it) ! p = steps ((iter ^^ i) it) ! p \<and>
         p \<notin> snd ` set (working_set ((iter ^^ (i + j)) it))"
proof -
  have d: "distinct (keys g)" using assms(1) by (simp add: wf_graph_def)
  have it: "it = iter (filled g s)"
    using assms(2,3) by (simp add: iterator_begin)
  have l: "linked g ((iter ^^ i) it)"
    unfolding it by (intro linked_funpow linked_iter linked_filled d)
  have "finished ((iter ^^ i) it) p"
    using linked_current_finished[OF l assms(4)] .
  then have "steps ((iter ^^ j) ((iter ^^ i) it)) ! p = steps ((iter ^^ i) it) ! p \<and>
             finished ((iter ^^ j) ((iter ^^ i) it)) p"
    using funpow_finished[OF l] by blast
  moreover have "(iter ^^ j) ((iter ^^ i) it) = (iter ^^ (i + j)) it"
    by (metis add.commute comp_apply funpow_add)
  ultimately show ?thesis by (simp add: finished_def)
qed

subsection \<open>Stopping early\<close>







subsection \<open>A source that is not in the graph\<close>

text \<open>
  C5 (amended). The constructor of the shell \<^verbatim>\<open>dijkstra_traversal\<close> never fails. For a
  source that is absent from the graph, \<^verbatim>\<open>begin()\<close> fails with \<open>UnknownNode\<close> when it
  constructs the iterator, before any increment has run, and so does the loop over the
  traversal; for a source that is present \<^verbatim>\<open>begin()\<close> succeeds, and the loop has no
  error left to raise.
\<close>

theorem unknown_source_fails_at_begin:
  "dijkstra_traversal g s = Inr \<lparr>traversal_graph = g, traversal_start = s\<rparr> \<and>
   (\<not> contains g s \<longrightarrow>
      traversal_begin \<lparr>traversal_graph = g, traversal_start = s\<rparr> = Inl UnknownNode \<and>
      traverse g s = Inl UnknownNode) \<and>
   (contains g s \<longrightarrow>
      (\<exists>it. traversal_begin \<lparr>traversal_graph = g, traversal_start = s\<rparr> = Inr it \<and>
            traverse g s = Inr (range_for it)))"
  by (simp add: traverse_def dijkstra_traversal_def traversal_begin_def
        dijkstra_traversal_iterator_def)

subsection \<open>Ties in the selection\<close>

lemma scan_kt_result:
  "(ws = [] \<and> foldl (scan_entry_kt st) None ws = None) \<or>
   (\<exists>c. foldl (scan_entry_kt st) None ws = Some c \<and> last_min st ws c)"
proof (induction ws rule: rev_induct)
  case Nil
  then show ?case by simp
next
  case (snoc x ws)
  from snoc show ?case
  proof
    assume "ws = [] \<and> foldl (scan_entry_kt st) None ws = None"
    then have "foldl (scan_entry_kt st) None (ws @ [x]) = Some (snd x)" "ws = []"
      by (simp_all add: scan_entry_kt_def le_HUGE_VAL)
    moreover have "last_min st [x] (snd x)"
      unfolding last_min_def
      by (rule exI[of _ "[]"], rule exI[of _ "fst x"], rule exI[of _ "[]"]) simp
    ultimately show ?thesis by simp
  next
    assume "\<exists>c. foldl (scan_entry_kt st) None ws = Some c \<and> last_min st ws c"
    then obtain c pre k post where c: "foldl (scan_entry_kt st) None ws = Some c"
      and p: "ws = pre @ (k, c) # post"
        "\<forall>itr \<in> set pre. distance (st ! c) \<le> distance (st ! snd itr)"
        "\<forall>itr \<in> set post. distance (st ! c) < distance (st ! snd itr)"
      unfolding last_min_def by blast
    have one: "foldl (scan_entry_kt st) None (ws @ [x]) =
                 (if distance (st ! snd x) \<le> distance (st ! c) then Some (snd x) else Some c)"
      by (simp add: c) (simp add: scan_entry_kt_def)
    show ?thesis
    proof (cases "distance (st ! snd x) \<le> distance (st ! c)")
      case True
      have "\<forall>itr \<in> set ws. distance (st ! snd x) \<le> distance (st ! snd itr)"
        using p True by (fastforce intro: order_trans less_imp_le)
      then have "last_min st (ws @ [x]) (snd x)"
        unfolding last_min_def
        by (intro exI[of _ ws] exI[of _ "fst x"] exI[of _ "[]"]) simp
      then show ?thesis using one True by simp
    next
      case False
      then have "last_min st (ws @ [x]) c"
        unfolding last_min_def using p
        by (intro exI[of _ pre] exI[of _ k] exI[of _ "post @ [x]"]) auto
      then show ?thesis using one False by simp
    qed
  qed
qed

text \<open>
  C6 (amended). Each increment selects from a non-empty working set an entry of
  minimum distance. When several entries tie for the minimum, \<^verbatim>\<open>iter()\<close> of the C++
  iterator keeps the first one in the scan order of the working set (and removes it;
  it becomes \<^verbatim>\<open>current_node\<close> unless it is at \<^verbatim>\<open>HUGE_VAL\<close>), while the selection loop
  of Kotlin's \<^verbatim>\<open>shortestPath\<close> keeps the last one.
\<close>

theorem selection_ties:
  "(ws \<noteq> [] \<longrightarrow>
      (\<exists>c. foldl (scan_entry st) None ws = Some c \<and> first_min st ws c) \<and>
      (\<exists>c. foldl (scan_entry_kt st) None ws = Some c \<and> last_min st ws c)) \<and>
   (working_set it \<noteq> [] \<longrightarrow>
      (\<exists>c. first_min (steps it) (working_set it) c \<and>
           working_set (iter it) = erase (current (steps it ! c)) (working_set it) \<and>
           current_node (iter it) = (if distance (steps it ! c) = HUGE_VAL then None else Some c)))"
proof (intro conjI impI)
  assume "ws \<noteq> []"
  then show "\<exists>c. foldl (scan_entry st) None ws = Some c \<and> first_min st ws c"
    by (rule selection_first_min)
next
  assume "ws \<noteq> []"
  then show "\<exists>c. foldl (scan_entry_kt st) None ws = Some c \<and> last_min st ws c"
    using scan_kt_result[of ws st] by simp
next
  assume ne: "working_set it \<noteq> []"
  obtain c where c: "foldl (scan_entry (steps it)) None (working_set it) = Some c"
    "first_min (steps it) (working_set it) c"
    using selection_first_min[OF ne] by blast
  let ?it1 = "it\<lparr>current_node := Some c,
                  working_set := erase (current (steps it ! c)) (working_set it)\<rparr>"
  have "working_set (iter it) = erase (current (steps it ! c)) (working_set it) \<and>
        current_node (iter it) = (if distance (steps it ! c) = HUGE_VAL then None else Some c)"
    using ne c(1) relax_fold_frame[of c ?it1]
    by (simp add: iter_def Let_def)
  then show "\<exists>c. first_min (steps it) (working_set it) c \<and>
           working_set (iter it) = erase (current (steps it ! c)) (working_set it) \<and>
           current_node (iter it) = (if distance (steps it ! c) = HUGE_VAL then None else Some c)"
    using c(2) by blast
qed

subsection \<open>The example graphs\<close>

lemma demo_built:
  "demo = snd (create_link (snd (create_link (snd (create_link (snd (create_link (snd (create_link
            (snd (create_node (snd (create_node (snd (create_node (snd (create_node (snd (create_node
               \<lparr>nodes = []\<rparr> 3)) 0)) 4)) 1)) 2))
            0 1 (Num (Finite 4)))) 0 2 (Num (Finite 1)))) 2 1 (Num (Finite 2))))
            1 3 (Num (Finite 5)))) 4 0 (Num (Finite 1)))"
  by (simp add: demo_def create_node_def create_link_def contains_def graph_edge_def
        out_edges_of_def insert_out_edge_def insert_in_edge_def le_zero_double)

lemma demo_wf: "wf_graph demo"
  by (simp add: wf_graph_def keys_def demo_def out_edges_of_def le_zero_double)

lemma demo_contains: "contains demo 0"
  by (simp add: contains_def demo_def)

text \<open>
  What is needed to run a traversal of a graph with small whole weights.
\<close>

lemmas run_traversal =
  traverse_def dijkstra_traversal_def traversal_begin_def dijkstra_traversal_iterator_def
  filled_def contains_def assign_def iter_def scan_entry_def erase_def relax_edge_def
  out_edges_of_def range_for.simps Let_def round_double_numeral round_double_1

lemma demo_traverse: "traverse demo 0 = Inr (Some demo_steps)"
  by (simp add: run_traversal demo_def demo_steps_def)

lemma demo_begin: "dijkstra_traversal_iterator demo 0 True = Inr (iter (filled demo 0))"
  using demo_contains by (rule iterator_begin)

lemma tie_state:
  "steps (iter (filled tie_graph 0)) =
     [\<lparr>current = 0, distance = Finite 0, previous = None\<rparr>,
      \<lparr>current = 1, distance = Finite 1, previous = Some 0\<rparr>,
      \<lparr>current = 2, distance = Finite 1, previous = Some 0\<rparr>]"
  "working_set (iter (filled tie_graph 0)) = [(1, 1), (2, 2)]"
  by (simp_all add: run_traversal tie_graph_def)

lemma huge_weight_facts:
  "0 < huge_weight" "\<not> huge_weight \<le> 0" "\<not> huge_weight < 0"
  "round_double huge_weight = Finite huge_weight"
  "round_double (huge_weight + huge_weight) = HUGE_VAL"
  "round_double (2 * huge_weight) = HUGE_VAL"
proof -
  show "0 < huge_weight" by (simp add: huge_weight_def)
  then show "\<not> huge_weight \<le> 0" "\<not> huge_weight < 0" by simp_all
  show "round_double huge_weight = Finite huge_weight"
    using round_double_exact[of 1 1023] by (simp add: huge_weight_def)
  have "huge_weight + huge_weight = 2 ^ 1024" by (simp add: huge_weight_def)
  then show o: "round_double (huge_weight + huge_weight) = HUGE_VAL"
    using round_double_overflow[of "huge_weight + huge_weight"] by simp
  then show "round_double (2 * huge_weight) = HUGE_VAL"
    by (simp only: mult_2)
qed

lemma overflow_built:
  "overflow_graph = snd (create_link (snd (create_link
      (snd (create_node (snd (create_node (snd (create_node \<lparr>nodes = []\<rparr> 0)) 1)) 2))
      0 1 (Num (Finite huge_weight)))) 1 2 (Num (Finite huge_weight)))"
  by (simp add: overflow_graph_def create_node_def create_link_def contains_def graph_edge_def
        out_edges_of_def insert_out_edge_def insert_in_edge_def le_zero_double huge_weight_facts)

lemma overflow_traverse: "traverse overflow_graph 0 = Inr (Some overflow_steps)"
  by (simp add: run_traversal overflow_graph_def overflow_steps_def huge_weight_facts)

text \<open>
  A weight that is NaN or plus infinity passes the test of \<^verbatim>\<open>create_link\<close>, and the
  node behind an edge of such a weight is not reached along it: the sum is NaN or plus
  infinity, which is not less than \<^verbatim>\<open>HUGE_VAL\<close>.
\<close>

lemma one_edge_built:
  assumes "\<not> w \<le> 0"
  shows "one_edge w =
           snd (create_link (snd (create_node (snd (create_node \<lparr>nodes = []\<rparr> 0)) 1)) 0 1 w)"
  using assms
  by (simp add: one_edge_def create_node_def create_link_def contains_def graph_edge_def
        out_edges_of_def insert_out_edge_def insert_in_edge_def)

lemma one_edge_traverse:
  "traverse (one_edge NaN) 0 = Inr (Some [\<lparr>current = 0, distance = Finite 0, previous = None\<rparr>])"
  "traverse (one_edge (Num HUGE_VAL)) 0 =
     Inr (Some [\<lparr>current = 0, distance = Finite 0, previous = None\<rparr>])"
  "traverse (one_edge (Num (Finite 1))) 0 =
     Inr (Some [\<lparr>current = 0, distance = Finite 0, previous = None\<rparr>,
                \<lparr>current = 1, distance = Finite 1, previous = Some 0\<rparr>])"
  by (simp_all add: run_traversal one_edge_def)

subsection \<open>Graphs built by the library are well formed\<close>

lemma wf_empty: "wf_graph \<lparr>nodes = []\<rparr>"
  by (simp add: wf_graph_def keys_def)

lemma wf_create_node:
  assumes "wf_graph g"
  shows "wf_graph (snd (create_node g nm))"
proof (cases "contains g nm")
  case True
  then show ?thesis using assms by (simp add: create_node_def)
next
  case False
  let ?g = "g\<lparr>nodes := nodes g @ [(nm, \<lparr>name = nm, out_edges = [], in_edges = []\<rparr>)]\<rparr>"
  have nm: "nm \<notin> set (keys g)" using False by (simp add: contains_keys)
  have k: "keys ?g = keys g @ [nm]" by (simp add: keys_def)
  have none: "map_of (nodes g) nm = None"
    using nm by (simp add: keys_def map_of_eq_None_iff)
  have o: "out_edges_of ?g k = (if k = nm then [] else out_edges_of g k)" for k
    using none by (auto simp: out_edges_of_def map_add_def split: option.splits)
  have "wf_graph ?g"
    using assms nm unfolding wf_graph_def k o by auto
  then show ?thesis using False by (simp add: create_node_def)
qed

lemma wf_create_link:
  assumes "wf_graph g"
  shows "wf_graph (snd (create_link g s e w))"
proof (cases "contains g s \<and> contains g e \<and> \<not> w \<le> 0 \<and>
              \<not> (\<exists>x \<in> set (out_edges_of g s). end_node x = e)")
  case False
  then have "snd (create_link g s e w) = g"
    by (auto simp: create_link_result)
  then show ?thesis using assms by simp
next
  case True
  let ?g = "g\<lparr>nodes := insert_in_edge e \<lparr>weight = w, start = s, end_node = e\<rparr>
                        (insert_out_edge s \<lparr>weight = w, start = s, end_node = e\<rparr> (nodes g))\<rparr>"
  have r: "snd (create_link g s e w) = ?g"
    using True by (simp add: create_link_result)
  have "link_added g s e w ?g"
    using True link_added_insert[of g s e w] by simp
  then have k: "keys ?g = keys g"
    and o: "\<And>k. out_edges_of ?g k =
             (if k = s then \<lparr>weight = w, start = s, end_node = e\<rparr> # out_edges_of g s
              else out_edges_of g k)"
    unfolding link_added_def Let_def keys_def by simp_all
  have "wf_graph ?g"
    using assms True unfolding wf_graph_def k o by (auto simp: contains_keys)
  then show ?thesis using r by simp
qed

lemma built_wf: "built g \<Longrightarrow> wf_graph g"
  by (induction rule: built.induct) (simp_all add: wf_empty wf_create_node wf_create_link)

lemma demo_is_built: "built demo"
  unfolding demo_built by (intro built.intros)

lemma overflow_is_built: "built overflow_graph"
  unfolding overflow_built by (intro built.intros)

text \<open>
  The order of the node table, which an unordered map leaves open, does not matter
  for being well formed.
\<close>

lemma wf_graph_reorder:
  assumes "wf_graph g" "distinct (keys g')" "set (nodes g') = set (nodes g)"
  shows "wf_graph g'"
proof -
  have d: "distinct (map fst (nodes g))" "distinct (map fst (nodes g'))"
    using assms(1,2) by (simp_all add: wf_graph_def keys_def)
  have "map_of (nodes g') = map_of (nodes g)"
    using map_of_inject_set[OF d(2) d(1)] assms(3) by simp
  then have o: "out_edges_of g' k = out_edges_of g k" for k
    by (simp add: out_edges_of_def)
  have k: "set (keys g') = set (keys g)"
    using assms(3) by (simp add: keys_def)
  show ?thesis
    using assms(1,2) unfolding wf_graph_def o k by simp
qed

subsection \<open>The theorems at work on the example graphs\<close>

theorem traversal_order_witness:
  "wf_graph demo \<and> contains demo 0 \<and> traverse demo 0 = Inr (Some demo_steps) \<and>
   hd demo_steps = \<lparr>current = 0, distance = Finite 0, previous = None\<rparr> \<and>
   sorted (map distance demo_steps)"
  using traversal_order[OF demo_wf demo_contains] demo_wf demo_contains demo_traverse
  by (auto simp: demo_steps_def)

theorem predecessor_edge_witness:
  "wf_graph demo \<and> contains demo 0 \<and> traverse demo 0 = Inr (Some demo_steps) \<and>
   2 < length demo_steps \<and> previous (demo_steps ! 2) = Some 2 \<and>
   (\<exists>j < 2. current (demo_steps ! j) = 2 \<and>
      (\<exists>e \<in> set (out_edges_of demo 2). end_node e = current (demo_steps ! 2) \<and>
         Num (distance (demo_steps ! 2)) = plus_weight (distance (demo_steps ! j)) (weight e)))"
proof -
  have l: "2 < length demo_steps" and p: "previous (demo_steps ! 2) = Some 2"
    by (simp_all add: demo_steps_def)
  show ?thesis
    using predecessor_edge[OF demo_wf demo_contains demo_traverse l p]
      demo_wf demo_contains demo_traverse l p
    by simp
qed

theorem traversal_yields_reachable_unless_overflow_witness:
  "wf_graph demo \<and> contains demo 0 \<and> traverse demo 0 = Inr (Some demo_steps) \<and>
   sums_finite demo demo_steps \<and> distinct (map current demo_steps) \<and>
   {v. reachable demo 0 v} = {0, 1, 2, 3} \<and> card {v. reachable demo 0 v} = 4"
proof -
  obtain ys where ys: "traverse demo 0 = Inr (Some ys)" "distinct (map current ys)"
    "sums_finite demo ys \<longrightarrow>
       set (map current ys) = {v. reachable demo 0 v} \<and> length ys = card {v. reachable demo 0 v}"
    using traversal_yields_reachable_unless_overflow[OF demo_wf demo_contains] by blast
  have e: "ys = demo_steps" using ys(1) demo_traverse by simp
  have fs: "sums_finite demo demo_steps"
    by (simp add: sums_finite_def demo_steps_def demo_def out_edges_of_def round_double_numeral
          round_double_1)
  have r: "{v. reachable demo 0 v} = set (map current demo_steps)"
    and c: "card {v. reachable demo 0 v} = length demo_steps"
    using ys(3) e fs by simp_all
  have d: "distinct (map current demo_steps)"
    using ys(2) e by simp
  show ?thesis
    unfolding r c using d fs demo_wf demo_contains demo_traverse by (auto simp: demo_steps_def)
qed

text \<open>
  C3 as stated fails. The library builds \<open>overflow_graph\<close> (lemma \<open>overflow_is_built\<close>),
  and node \<open>2\<close> can be reached from node \<open>0\<close>. The traversal from \<open>0\<close> yields \<open>0\<close> and
  then \<open>1\<close> at distance \<open>2 ^ 1023\<close>; the sum for node \<open>2\<close>, \<open>2 ^ 1023 + 2 ^ 1023\<close>,
  overflows to plus infinity, which is not less than the \<^verbatim>\<open>HUGE_VAL\<close> the node is at, so
  node \<open>2\<close> stays there, ends the loop as if it could not be reached, and is not yielded.
\<close>

theorem overflow_hides_reachable_node:
  "wf_graph overflow_graph \<and> contains overflow_graph 0 \<and> reachable overflow_graph 0 2 \<and>
   traverse overflow_graph 0 = Inr (Some overflow_steps) \<and>
   2 \<notin> set (map current overflow_steps)"
proof -
  have e: "\<lparr>weight = Num (Finite huge_weight), start = 0, end_node = 1\<rparr> \<in> set (out_edges_of overflow_graph 0)"
    "\<lparr>weight = Num (Finite huge_weight), start = 1, end_node = 2\<rparr> \<in> set (out_edges_of overflow_graph 1)"
    by (simp_all add: overflow_graph_def out_edges_of_def)
  have "reachable overflow_graph 0 1"
    using reachable_step[OF reachable_refl e(1)] by simp
  then have "reachable overflow_graph 0 2"
    using reachable_step[OF _ e(2)] by simp
  moreover have "wf_graph overflow_graph"
    using overflow_is_built by (rule built_wf)
  moreover have "contains overflow_graph 0"
    by (simp add: contains_def overflow_graph_def)
  ultimately show ?thesis
    using overflow_traverse by (simp add: overflow_steps_def)
qed


theorem yielded_step_immutable_witness:
  "wf_graph demo \<and> contains demo 0 \<and>
   dijkstra_traversal_iterator demo 0 True = Inr (iter (filled demo 0)) \<and>
   current_node ((iter ^^ 1) (iter (filled demo 0))) = Some 4 \<and>
   steps ((iter ^^ (1 + 2)) (iter (filled demo 0))) ! 4 = steps ((iter ^^ 1) (iter (filled demo 0))) ! 4 \<and>
   4 \<notin> snd ` set (working_set ((iter ^^ (1 + 2)) (iter (filled demo 0))))"
proof -
  have c: "current_node ((iter ^^ 1) (iter (filled demo 0))) = Some 4"
    by (simp add: run_traversal demo_def)
  show ?thesis
    using yielded_step_immutable[OF demo_wf demo_contains demo_begin c, of 2]
      demo_wf demo_contains demo_begin c
    by simp
qed

theorem unknown_source_fails_at_begin_witness:
  "\<not> contains demo 7 \<and>
   dijkstra_traversal demo 7 = Inr \<lparr>traversal_graph = demo, traversal_start = 7\<rparr> \<and>
   traversal_begin \<lparr>traversal_graph = demo, traversal_start = 7\<rparr> = Inl UnknownNode \<and>
   traverse demo 7 = Inl UnknownNode \<and>
   contains demo 0 \<and>
   (\<exists>it. traversal_begin \<lparr>traversal_graph = demo, traversal_start = 0\<rparr> = Inr it \<and>
         traverse demo 0 = Inr (range_for it))"
proof -
  have n: "\<not> contains demo 7" by (simp add: contains_def demo_def)
  show ?thesis
    using unknown_source_fails_at_begin[of demo 7] unknown_source_fails_at_begin[of demo 0]
      n demo_contains
    by simp
qed

text \<open>
  C5 as stated fails: node \<open>7\<close> is not in the graph, and the traversal object is
  constructed all the same.
\<close>

theorem shell_constructor_succeeds:
  "\<not> contains demo 7 \<and> dijkstra_traversal demo 7 \<noteq> Inl UnknownNode"
  by (simp add: contains_def demo_def dijkstra_traversal_def)

theorem selection_ties_witness:
  "working_set (iter (filled tie_graph 0)) = [(1, 1), (2, 2)] \<and>
   distance (steps (iter (filled tie_graph 0)) ! 1) = distance (steps (iter (filled tie_graph 0)) ! 2) \<and>
   foldl (scan_entry (steps (iter (filled tie_graph 0)))) None [(1, 1), (2, 2)] = Some 1 \<and>
   first_min (steps (iter (filled tie_graph 0))) [(1, 1), (2, 2)] 1 \<and>
   foldl (scan_entry_kt (steps (iter (filled tie_graph 0)))) None [(1, 1), (2, 2)] = Some 2 \<and>
   last_min (steps (iter (filled tie_graph 0))) [(1, 1), (2, 2)] 2 \<and>
   working_set (iter (iter (filled tie_graph 0))) = [(2, 2)] \<and>
   current_node (iter (iter (filled tie_graph 0))) = Some 1"
proof -
  let ?it = "iter (filled tie_graph 0)"
  have ne: "[(1, 1), (2, 2)] \<noteq> ([] :: (nat \<times> nat) list)" "working_set ?it \<noteq> []"
    by (simp_all add: tie_state)
  have a: "foldl (scan_entry (steps ?it)) None [(1, 1), (2, 2)] = Some 1"
    by (simp add: tie_state scan_entry_def)
  have b: "foldl (scan_entry_kt (steps ?it)) None [(1, 1), (2, 2)] = Some 2"
    by (simp add: tie_state scan_entry_kt_def)
  have c: "working_set (iter ?it) = [(2, 2)]" "current_node (iter ?it) = Some 1"
    by (simp_all add: run_traversal tie_graph_def)
  have d: "distance (steps ?it ! 1) = distance (steps ?it ! 2)"
    by (simp add: tie_state)
  show ?thesis
    using selection_ties[of "[(1, 1), (2, 2)]" "steps ?it" ?it] ne a b c d tie_state(2)
    by auto
qed

text \<open>
  C6 as stated fails for Kotlin. The first increment on \<open>tie_graph\<close> is the same in
  both implementations (the source is the only entry at a finite distance); in the
  working set it leaves, the entries of the nodes \<open>1\<close> and \<open>2\<close> tie at distance 1, in
  this scan order, and the Kotlin selection keeps the entry of node \<open>2\<close>, which is not
  the first one.
\<close>

theorem kotlin_keeps_last_of_tie:
  "foldl (scan_entry_kt (steps (iter (filled tie_graph 0)))) None (working_set (iter (filled tie_graph 0))) = Some 2 \<and>
   \<not> first_min (steps (iter (filled tie_graph 0))) (working_set (iter (filled tie_graph 0))) 2"
proof -
  have "foldl (scan_entry_kt (steps (iter (filled tie_graph 0)))) None (working_set (iter (filled tie_graph 0))) = Some 2"
    by (simp add: tie_state scan_entry_kt_def)
  moreover have "\<not> first_min (steps (iter (filled tie_graph 0))) (working_set (iter (filled tie_graph 0))) 2"
    by (auto simp: first_min_def tie_state Cons_eq_append_conv)
  ultimately show ?thesis by simp
qed

end
